theory Spec2Isabelle
  imports Complex_Main "HOL-Library.Multiset"
begin

section \<open>Game constants (backend/src/game/constants.ts)\<close>

text \<open>
  JavaScript numbers that hold money are modelled as exact rationals (the ladder starts at
  one penny, \<open>0.01\<close>); counters and indices are integers or naturals. Strings are lists of
  8-bit characters, read as UTF-16 code units below 256.
\<close>

definition BOX_VALUES :: "rat list" where
  "BOX_VALUES =
     [1 / 100, 1, 5, 10, 50, 100, 250, 500, 750, 1000,
      3000, 5000, 10000, 15000, 20000, 35000, 50000, 75000, 100000, 250000]"

definition ROUNDS :: "(nat \<times> nat) list" where
  "ROUNDS = [(1, 5), (2, 4), (3, 3), (4, 2)]"

definition getBoxesToOpenForRound :: "nat \<Rightarrow> nat" where
  "getBoxesToOpenForRound r =
     (case find (\<lambda>rc. fst rc = r) ROUNDS of
        Some roundConfig \<Rightarrow> snd roundConfig
      | None \<Rightarrow> 1)"

definition OFFER_TIMEOUT_MS :: int where
  "OFFER_TIMEOUT_MS = 20000"

definition BOX_OPEN_TIMEOUT_MS :: int where
  "BOX_OPEN_TIMEOUT_MS = 20000"

definition MAX_PLAYERS_PER_ROOM :: nat where
  "MAX_PLAYERS_PER_ROOM = 6"

definition MIN_PLAYERS_TO_START :: nat where
  "MIN_PLAYERS_TO_START = 2"

definition MAX_NAME_LENGTH :: nat where
  "MAX_NAME_LENGTH = 16"

definition BANNED_WORDS :: "string list" where
  "BANNED_WORDS =
     [''fuck'', ''shit'', ''bitch'', ''cunt'', ''dick'', ''ass'',
      ''bastard'', ''wanker'', ''twat'', ''bollocks'', ''prick'',
      ''nigger'', ''faggot'', ''retard'']"

subsection \<open>String primitives used by the name filter\<close>

text \<open>
  \<open>String.prototype.trim\<close> strips white space and line terminators from both ends. Below
  code unit 256 these are TAB, LF, VT, FF, CR, SPACE and NBSP.
\<close>

definition isWhiteSpace :: "char \<Rightarrow> bool" where
  "isWhiteSpace c = (of_char c \<in> {9, 10, 11, 12, 13, 32, 160 :: nat})"

definition trim :: "string \<Rightarrow> string" where
  "trim s = rev (dropWhile isWhiteSpace (rev (dropWhile isWhiteSpace s)))"

text \<open>
  \<open>toLowerCase\<close> on code units below 256: \<open>A\<close>..\<open>Z\<close> and the Latin-1 capitals
  (\<open>0xC0\<close>..\<open>0xDE\<close> without the multiplication sign \<open>0xD7\<close>) move up by 32.
\<close>

definition toLowerChar :: "char \<Rightarrow> char" where
  "toLowerChar c =
     (let n = (of_char c :: nat)
      in if (65 \<le> n \<and> n \<le> 90) \<or> (192 \<le> n \<and> n \<le> 222 \<and> n \<noteq> 215)
         then char_of (n + 32) else c)"

definition toLowerCase :: "string \<Rightarrow> string" where
  "toLowerCase s = map toLowerChar s"

text \<open>\<open>s.includes(w)\<close>: \<open>w\<close> occurs in \<open>s\<close> as a contiguous substring.\<close>

fun includes_str :: "string \<Rightarrow> string \<Rightarrow> bool" where
  "includes_str [] w = (w = [])"
| "includes_str (c # cs) w = (take (length w) (c # cs) = w \<or> includes_str cs w)"

definition containsProfanity :: "string \<Rightarrow> bool" where
  "containsProfanity name =
     (let lowerName = toLowerCase name
      in list_ex (\<lambda>word. includes_str lowerName word) BANNED_WORDS)"

definition isVowel :: "char \<Rightarrow> bool" where
  "isVowel c = (c \<in> set ''aeiouAEIOU'')"

definition replaceVowels :: "string \<Rightarrow> string" where
  "replaceVowels s = map (\<lambda>c. if isVowel c then CHR ''*'' else c) s"

definition sanitiseName :: "string \<Rightarrow> string" where
  "sanitiseName name =
     (let trimmed = take MAX_NAME_LENGTH (trim name)
      in if containsProfanity trimmed then replaceVowels trimmed else trimmed)"

section \<open>Scoring (game/points.ts)\<close>

text \<open>
  \<open>calculatePoints\<close> destructures its parameter object at once, so the model takes the six
  fields as arguments, in the order of \<open>CalculatePointsParams\<close>. The running total \<open>points\<close>
  is threaded through the statements as the source does.
\<close>

definition calculatePoints :: "rat \<Rightarrow> rat \<Rightarrow> int \<Rightarrow> bool \<Rightarrow> bool \<Rightarrow> int \<Rightarrow> int" where
  "calculatePoints finalWinnings finalBoxValue roundDealt isLastStanding isHighestWinnings timeoutCount =
     (let points0 = (0 :: int);
          points1 = points0 + min \<lfloor>finalWinnings / 100\<rfloor> 3000;
          points2 = (if finalWinnings > finalBoxValue then points1 + 200 else points1);
          points3 = (if roundDealt \<ge> 4 then points2 + 150 else points2);
          points4 = (if roundDealt \<le> 2 then points3 - 50 else points3);
          points5 = (if isLastStanding then points4 + 200 else points4);
          points6 = (if isHighestWinnings then points5 + 200 else points5);
          points7 = points6 - timeoutCount * 50
      in max points7 0)"

section \<open>Banker (game/banker.ts)\<close>

text \<open>
  \<open>Math.random()\<close> is an explicit argument \<open>rand\<close>, a number in \<open>[0, 1)\<close>.
  \<open>Math.round x\<close> is \<open>\<lfloor>x + 1/2\<rfloor>\<close>. Reading \<open>roundModifiers\<close> outside its bounds gives
  \<open>undefined\<close> in the source and the offer is then not a number: the model returns \<open>None\<close>.
\<close>

definition nth_opt :: "'a list \<Rightarrow> int \<Rightarrow> 'a option" where
  "nth_opt xs i = (if 0 \<le> i \<and> i < int (length xs) then Some (xs ! nat i) else None)"

definition Math_round :: "rat \<Rightarrow> int" where
  "Math_round x = \<lfloor>x + 1 / 2\<rfloor>"

definition roundModifiers :: "rat list" where
  "roundModifiers = [7 / 10, 8 / 10, 9 / 10, 95 / 100, 1, 105 / 100]"

definition getBankerOffer :: "rat list \<Rightarrow> int \<Rightarrow> rat \<Rightarrow> rat option" where
  "getBankerOffer remainingValues round_no rand =
     (if length remainingValues = 0 then Some 0
      else
        let avg = foldl (\<lambda>sum v. sum + v) 0 remainingValues / of_nat (length remainingValues)
        in case nth_opt roundModifiers (min (round_no - 1) (int (length roundModifiers) - 1)) of
             None \<Rightarrow> None
           | Some baseModifier \<Rightarrow>
               let randomFactor = 9 / 10 + rand * (2 / 10);
                   offer = avg * baseModifier * randomFactor
               in Some (of_int (Math_round (offer / 10)) * 10))"

definition calculateBankerOffer :: "rat list \<Rightarrow> int \<Rightarrow> rat \<Rightarrow> rat option" where
  "calculateBankerOffer remainingValues round_no rand = getBankerOffer remainingValues round_no rand"

section \<open>Room state (store/types.ts)\<close>

datatype PlayerRole = RolePlayer | RoleSpectator

record Player =
  id_p :: string
  socketId :: string
  name :: string
  isHost :: bool
  isReady :: bool
  role :: PlayerRole
  boxNumber :: "int option"
  hasDealt :: bool
  dealAmount :: "rat option"
  boxValue :: "rat option"
  roundDealt :: "nat option"
  isLastStanding :: bool
  points :: int
  timeoutCount :: nat
  isConnected :: bool

record Box =
  number :: int
  value_b :: rat
  isOpened :: bool
  openedByPlayerId :: "string option"

datatype GamePhase = Waiting | Selection | Playing | Offer | Finished

text \<open>
  \<open>players\<close> is a JavaScript \<open>Map\<close> from player id to player, iterated in insertion order.
  Every entry is stored under the player's own \<open>id\<close>, so the model keeps the players as a
  list in insertion order and looks an entry up by its \<open>id\<close> field. \<open>offerResponses\<close> is a
  plain object used as a map from player id to the answer.

  The handlers module keeps the pending timers of a room in two module-level maps keyed by
  room code, and schedules the banker's call after a round with an uncancellable 1.5 s
  timeout. The model is of one room, so these are three more fields of the state:
  \<open>turnTimer\<close> is the player the pending turn timeout was armed for, \<open>offerTimer\<close> tells
  whether an offer timeout is pending, \<open>pendingOffers\<close> counts the scheduled banker calls.
\<close>

record GameState =
  roomCode :: string
  phase :: GamePhase
  players :: "Player list"
  boxes :: "Box list"
  currentRound :: nat
  boxesOpenedThisRound :: "int list"
  remainingValues :: "rat list"
  eliminatedValues :: "rat list"
  currentOffer :: "rat option"
  offerExpiresAt :: "int option"
  offerEligiblePlayerIds :: "string list"
  offerResponses :: "string \<rightharpoonup> bool"
  turnOrder :: "string list"
  currentTurnIndex :: int
  currentTurnPlayerId :: "string option"
  turnExpiresAt :: "int option"
  hostId :: string
  password :: "string option"
  createdAt :: int
  startedAt :: "int option"
  finishedAt :: "int option"
  turnTimer :: "string option"
  offerTimer :: bool
  pendingOffers :: nat

record PlayerPublicInfo =
  pp_id :: string
  pp_name :: string
  pp_isHost :: bool
  pp_isReady :: bool
  pp_role :: PlayerRole
  pp_boxNumber :: "int option"
  pp_hasDealt :: bool
  pp_dealAmount :: "rat option"
  pp_isActive :: bool
  pp_isConnected :: bool

record BoxPublicInfo =
  bp_number :: int
  bp_isOpened :: bool
  bp_value :: "rat option"
  bp_isPlayerBox :: bool
  bp_ownerId :: "string option"

record GameStateUpdate =
  u_phase :: GamePhase
  u_players :: "PlayerPublicInfo list"
  u_boxes :: "BoxPublicInfo list"
  u_currentRound :: nat
  u_boxesToOpenThisRound :: nat
  u_boxesOpenedThisRound :: "int list"
  u_remainingValues :: "rat list"
  u_eliminatedValues :: "rat list"
  u_currentOffer :: "rat option"
  u_offerExpiresAt :: "int option"
  u_currentTurnPlayerId :: "string option"
  u_turnExpiresAt :: "int option"
  u_recentlyOpenedBox :: "(int \<times> rat) option"

section \<open>Room store (store/rooms.ts)\<close>

text \<open>
  Mutating the object that \<open>find\<close> or \<open>Map.get\<close> returned changes the first matching
  element in place.
\<close>

fun updateFirst :: "('a \<Rightarrow> bool) \<Rightarrow> ('a \<Rightarrow> 'a) \<Rightarrow> 'a list \<Rightarrow> 'a list" where
  "updateFirst P f [] = []"
| "updateFirst P f (x # xs) = (if P x then f x # xs else x # updateFirst P f xs)"

text \<open>
  Fisher-Yates: \<open>rands i\<close> is the value \<open>Math.random()\<close> returns in the iteration with loop
  index \<open>i\<close>; the loop runs from \<open>length - 1\<close> down to 1.
\<close>

fun shuffleLoop :: "'a list \<Rightarrow> nat \<Rightarrow> (nat \<Rightarrow> rat) \<Rightarrow> 'a list" where
  "shuffleLoop shuffled 0 rands = shuffled"
| "shuffleLoop shuffled (Suc i') rands =
     (let i = Suc i';
          j = nat \<lfloor>rands i * of_nat (i + 1)\<rfloor>
      in shuffleLoop ((shuffled[i := shuffled ! j])[j := shuffled ! i]) i' rands)"

definition shuffleArray :: "'a list \<Rightarrow> (nat \<Rightarrow> rat) \<Rightarrow> 'a list" where
  "shuffleArray array rands = shuffleLoop array (length array - 1) rands"

definition createInitialBoxes :: "(nat \<Rightarrow> rat) \<Rightarrow> Box list" where
  "createInitialBoxes rands =
     (let shuffledValues = shuffleArray BOX_VALUES rands
      in map (\<lambda>(v, index). \<lparr>number = int index + 1, value_b = v, isOpened = False,
                              openedByPlayerId = None\<rparr>)
           (zip shuffledValues [0..<length shuffledValues]))"

text \<open>
  The generated room code and player id, the clock reading and the random draws are
  arguments.
\<close>

definition createRoom :: "string \<Rightarrow> string \<Rightarrow> string \<Rightarrow> string \<Rightarrow> int \<Rightarrow> (nat \<Rightarrow> rat) \<Rightarrow> GameState" where
  "createRoom code playerId hostSocketId hostName now rands =
     (let host = \<lparr>id_p = playerId, socketId = hostSocketId, name = sanitiseName hostName,
                   isHost = True, isReady = False, role = RolePlayer, boxNumber = None,
                   hasDealt = False, dealAmount = None, boxValue = None, roundDealt = None,
                   isLastStanding = False, points = 0, timeoutCount = 0, isConnected = True\<rparr>
      in \<lparr>roomCode = code, phase = Waiting, players = [host],
           boxes = createInitialBoxes rands, currentRound = 0, boxesOpenedThisRound = [],
           remainingValues = BOX_VALUES, eliminatedValues = [], currentOffer = None,
           offerExpiresAt = None, offerEligiblePlayerIds = [], offerResponses = Map.empty,
           turnOrder = [], currentTurnIndex = 0, currentTurnPlayerId = None,
           turnExpiresAt = None, hostId = playerId, password = None, createdAt = now,
           startedAt = None, finishedAt = None,
           turnTimer = None, offerTimer = False, pendingOffers = 0\<rparr>)"

definition getPlayer :: "GameState \<Rightarrow> string \<Rightarrow> Player option" where
  "getPlayer gs playerId = find (\<lambda>p. id_p p = playerId) (players gs)"

definition updatePlayer :: "string \<Rightarrow> (Player \<Rightarrow> Player) \<Rightarrow> GameState \<Rightarrow> GameState" where
  "updatePlayer playerId updates gs =
     gs\<lparr>players := updateFirst (\<lambda>p. id_p p = playerId) updates (players gs)\<rparr>"

text \<open>\<open>Map.set\<close>: an existing key keeps its position, a new key goes last.\<close>

definition setPlayer :: "Player \<Rightarrow> Player list \<Rightarrow> Player list" where
  "setPlayer player ps =
     (if list_ex (\<lambda>p. id_p p = id_p player) ps
      then updateFirst (\<lambda>p. id_p p = id_p player) (\<lambda>_. player) ps
      else ps @ [player])"

text \<open>
  \<open>joinRoom\<close> returns the error message or the room with the new player. A password that
  is \<open>null\<close> or empty is not checked.
\<close>

definition joinRoom :: "string \<Rightarrow> string \<Rightarrow> string \<Rightarrow> string option \<Rightarrow> bool \<Rightarrow> GameState \<Rightarrow> string + GameState" where
  "joinRoom playerId sock playerName pw asSpectator gs =
     (if (case password gs of None \<Rightarrow> False | Some roomPw \<Rightarrow> roomPw \<noteq> [] \<and> Some roomPw \<noteq> pw)
      then Inl ''Incorrect password''
      else
        let role' = (if asSpectator then RoleSpectator else RolePlayer)
        in if role' = RolePlayer \<and> phase gs \<noteq> Waiting then Inl ''Game already in progress''
           else
             let playerCount = length (filter (\<lambda>p. role p = RolePlayer) (players gs))
             in if role' = RolePlayer \<and> playerCount \<ge> MAX_PLAYERS_PER_ROOM then Inl ''Room is full''
                else
                  let player = \<lparr>id_p = playerId, socketId = sock, name = sanitiseName playerName,
                                 isHost = False, isReady = (role' = RoleSpectator), role = role',
                                 boxNumber = None, hasDealt = (role' = RoleSpectator),
                                 dealAmount = None, boxValue = None, roundDealt = None,
                                 isLastStanding = False, points = 0, timeoutCount = 0,
                                 isConnected = True\<rparr>
                  in Inr (gs\<lparr>players := setPlayer player (players gs)\<rparr>))"

definition handleDisconnect :: "string \<Rightarrow> GameState \<Rightarrow> GameState" where
  "handleDisconnect playerId gs = updatePlayer playerId (\<lambda>p. p\<lparr>isConnected := False\<rparr>) gs"

definition reconnectPlayer :: "string \<Rightarrow> string \<Rightarrow> GameState \<Rightarrow> GameState" where
  "reconnectPlayer playerId newSocketId gs =
     updatePlayer playerId (\<lambda>p. p\<lparr>socketId := newSocketId, isConnected := True\<rparr>) gs"

definition setRoomPassword :: "string option \<Rightarrow> GameState \<Rightarrow> GameState" where
  "setRoomPassword pw gs = gs\<lparr>password := pw\<rparr>"

section \<open>Game engine (socket handlers)\<close>

text \<open>
  The handlers are functions from the room to the room. A handler that the source leaves
  by an early \<open>return\<close> gives the room back unchanged. Broadcasts to the sockets and the
  process-wide leaderboard are outputs that no handler reads back; the state projection
  that a broadcast sends is \<open>createGameStateUpdate\<close>. Each handler run takes one clock
  reading \<open>now\<close> and the value \<open>rand\<close> that \<open>Math.random()\<close> returns in the banker.
\<close>

definition isReservedPlayerBox :: "GameState \<Rightarrow> int \<Rightarrow> bool" where
  "isReservedPlayerBox gs n =
     list_ex (\<lambda>p. role p = RolePlayer \<and> boxNumber p = Some n) (players gs)"

definition hasOpenableBoxes :: "GameState \<Rightarrow> bool" where
  "hasOpenableBoxes gs =
     list_ex (\<lambda>b. \<not> isOpened b \<and> \<not> isReservedPlayerBox gs (number b)) (boxes gs)"

text \<open>\<open>find(...)?.id || null\<close>: an empty id counts as no owner.\<close>

definition boxOwnerId :: "GameState \<Rightarrow> int \<Rightarrow> string option" where
  "boxOwnerId gs n =
     (case find (\<lambda>p. boxNumber p = Some n) (players gs) of
        None \<Rightarrow> None
      | Some p \<Rightarrow> (if id_p p = [] then None else Some (id_p p)))"

definition createGameStateUpdate :: "GameState \<Rightarrow> string \<Rightarrow> (int \<times> rat) option \<Rightarrow> GameStateUpdate" where
  "createGameStateUpdate gs forPlayerId recentlyOpenedBox =
     (let players' = map (\<lambda>p. \<lparr>pp_id = id_p p, pp_name = name p, pp_isHost = isHost p,
                                pp_isReady = isReady p, pp_role = role p,
                                pp_boxNumber = boxNumber p, pp_hasDealt = hasDealt p,
                                pp_dealAmount = dealAmount p,
                                pp_isActive = (\<not> hasDealt p \<and> boxNumber p \<noteq> None \<and> role p = RolePlayer),
                                pp_isConnected = isConnected p\<rparr>) (players gs);
          currentPlayer = getPlayer gs forPlayerId;
          boxes' = map (\<lambda>box. \<lparr>bp_number = number box, bp_isOpened = isOpened box,
                                 bp_value = (if isOpened box then Some (value_b box) else None),
                                 bp_isPlayerBox =
                                   (case currentPlayer of None \<Rightarrow> False
                                    | Some cp \<Rightarrow> boxNumber cp = Some (number box)),
                                 bp_ownerId = boxOwnerId gs (number box)\<rparr>) (boxes gs)
      in \<lparr>u_phase = phase gs, u_players = players', u_boxes = boxes',
           u_currentRound = currentRound gs,
           u_boxesToOpenThisRound = getBoxesToOpenForRound (currentRound gs),
           u_boxesOpenedThisRound = boxesOpenedThisRound gs,
           u_remainingValues = remainingValues gs,
           u_eliminatedValues = eliminatedValues gs,
           u_currentOffer = currentOffer gs, u_offerExpiresAt = offerExpiresAt gs,
           u_currentTurnPlayerId = currentTurnPlayerId gs,
           u_turnExpiresAt = turnExpiresAt gs,
           u_recentlyOpenedBox = recentlyOpenedBox\<rparr>)"

text \<open>The filter that the source repeats for the contestants still in play.\<close>

definition isActivePlayer :: "Player \<Rightarrow> bool" where
  "isActivePlayer p = (role p = RolePlayer \<and> boxNumber p \<noteq> None \<and> \<not> hasDealt p)"

definition checkGameEnd :: "GameState \<Rightarrow> bool" where
  "checkGameEnd gs = (length (filter isActivePlayer (players gs)) = 0)"

definition getLastActivePlayer :: "GameState \<Rightarrow> Player option" where
  "getLastActivePlayer gs =
     (let activePlayers = filter isActivePlayer (players gs)
      in if length activePlayers = 1 then Some (activePlayers ! 0) else None)"

definition allPlayersReady :: "GameState \<Rightarrow> bool" where
  "allPlayersReady gs =
     (let ps = filter (\<lambda>p. role p = RolePlayer) (players gs)
      in length ps \<ge> MIN_PLAYERS_TO_START \<and> list_all (\<lambda>p. isReady p \<and> boxNumber p \<noteq> None) ps)"

text \<open>
  JavaScript \<open>%\<close> truncates towards zero. The loop of \<open>getNextActivePlayerIndex\<close> runs over
  \<open>i = 0 .. length - 1\<close> and returns at the first hit; \<open>-1\<close> means no active player.
\<close>

definition js_rem :: "int \<Rightarrow> int \<Rightarrow> int" where
  "js_rem a b = sgn a * (\<bar>a\<bar> mod \<bar>b\<bar>)"

fun nextActiveLoop :: "GameState \<Rightarrow> int \<Rightarrow> nat list \<Rightarrow> int" where
  "nextActiveLoop gs startIndex [] = - 1"
| "nextActiveLoop gs startIndex (i # rest) =
     (let idx = js_rem (startIndex + int i) (int (length (turnOrder gs)))
      in case nth_opt (turnOrder gs) idx of
           None \<Rightarrow> nextActiveLoop gs startIndex rest
         | Some playerId \<Rightarrow>
             (case getPlayer gs playerId of
                None \<Rightarrow> nextActiveLoop gs startIndex rest
              | Some player \<Rightarrow>
                  if \<not> hasDealt player \<and> role player = RolePlayer then idx
                  else nextActiveLoop gs startIndex rest))"

definition getNextActivePlayerIndex :: "GameState \<Rightarrow> int \<Rightarrow> int" where
  "getNextActivePlayerIndex gs startIndex =
     (if length (turnOrder gs) = 0 then - 1
      else nextActiveLoop gs startIndex [0..<length (turnOrder gs)])"

definition clearTurnTimer :: "GameState \<Rightarrow> GameState" where
  "clearTurnTimer gs = gs\<lparr>turnTimer := None\<rparr>"

definition clearOfferTimer :: "GameState \<Rightarrow> GameState" where
  "clearOfferTimer gs = gs\<lparr>offerTimer := False\<rparr>"

text \<open>\<open>x || 0\<close> on a nullable number.\<close>

definition orZero :: "rat option \<Rightarrow> rat" where
  "orZero x = (case x of None \<Rightarrow> 0 | Some v \<Rightarrow> v)"

text \<open>\<open>Math.max\<close> over a non-empty list.\<close>

definition maxOfList :: "rat list \<Rightarrow> rat" where
  "maxOfList xs = (case xs of [] \<Rightarrow> 0 | x # rest \<Rightarrow> fold max rest x)"

definition isContestant :: "Player \<Rightarrow> bool" where
  "isContestant p = (role p = RolePlayer \<and> boxNumber p \<noteq> None)"

definition finishGame :: "int \<Rightarrow> GameState \<Rightarrow> GameState" where
  "finishGame now gs0 =
     (let gs = clearOfferTimer (clearTurnTimer gs0);
          ps = filter isContestant (players gs);
          finalAmounts = map (\<lambda>p. orZero (dealAmount p)) ps;
          highestWinnings = (if length finalAmounts > 0 then maxOfList finalAmounts else 0);
          score = (\<lambda>p.
            let finalWinnings = orZero (dealAmount p);
                finalBoxValue = orZero (boxValue p);
                roundDealt' = (case roundDealt p of None \<Rightarrow> currentRound gs
                               | Some r \<Rightarrow> if r = 0 then currentRound gs else r)
            in p\<lparr>points := calculatePoints finalWinnings finalBoxValue (int roundDealt')
                              (isLastStanding p) (finalWinnings = highestWinnings)
                              (int (timeoutCount p))\<rparr>)
      in gs\<lparr>players := map (\<lambda>p. if isContestant p then score p else p) (players gs),
             phase := Finished, finishedAt := Some now, currentOffer := None,
             offerExpiresAt := None, currentTurnPlayerId := None, turnExpiresAt := None,
             offerEligiblePlayerIds := [], offerResponses := Map.empty\<rparr>)"

text \<open>
  The statements that open a box the source has found and move its value: set
  \<open>isOpened\<close> and the opener on the found box, then, when \<open>indexOf\<close> finds the value among
  the remaining ones, \<open>splice\<close> the first occurrence out and \<open>push\<close> it on the eliminated ones.
\<close>

fun indexOf :: "'a list \<Rightarrow> 'a \<Rightarrow> int" where
  "indexOf [] x = - 1"
| "indexOf (y # ys) x =
     (if y = x then 0 else let r = indexOf ys x in if r = - 1 then - 1 else r + 1)"

definition spliceOut :: "nat \<Rightarrow> 'a list \<Rightarrow> 'a list" where
  "spliceOut i xs = take i xs @ drop (i + 1) xs"

definition moveToEliminated :: "rat \<Rightarrow> GameState \<Rightarrow> GameState" where
  "moveToEliminated v gs =
     (let valueIndex = indexOf (remainingValues gs) v
      in if valueIndex > - 1
         then gs\<lparr>remainingValues := spliceOut (nat valueIndex) (remainingValues gs),
                 eliminatedValues := eliminatedValues gs @ [v]\<rparr>
         else gs)"

definition openFoundBox :: "Box \<Rightarrow> string \<Rightarrow> GameState \<Rightarrow> GameState" where
  "openFoundBox box playerId gs =
     moveToEliminated (value_b box)
       (gs\<lparr>boxes := updateFirst (\<lambda>b. number b = number box)
                       (\<lambda>b. b\<lparr>isOpened := True, openedByPlayerId := Some playerId\<rparr>) (boxes gs)\<rparr>)"

definition findBox :: "GameState \<Rightarrow> int option \<Rightarrow> Box option" where
  "findBox gs n = (case n of None \<Rightarrow> None | Some k \<Rightarrow> find (\<lambda>b. number b = k) (boxes gs))"

definition finishLastPlayer :: "int \<Rightarrow> Player \<Rightarrow> GameState \<Rightarrow> GameState" where
  "finishLastPlayer now player gs0 =
     (let gs1 = updatePlayer (id_p player)
                  (\<lambda>p. p\<lparr>hasDealt := True, dealAmount := boxValue player,
                          roundDealt := Some (currentRound gs0), isLastStanding := True\<rparr>) gs0;
          gs2 = (case findBox gs1 (boxNumber player) of
                   None \<Rightarrow> gs1
                 | Some box \<Rightarrow> openFoundBox box (id_p player) gs1)
      in finishGame now gs2)"

text \<open>
  A banker's offer that is not a number (a round below 1) is stored as \<open>None\<close>; the engine
  calls the banker in rounds 1 and later.
\<close>

definition triggerBankerOffer :: "int \<Rightarrow> rat \<Rightarrow> GameState \<Rightarrow> GameState" where
  "triggerBankerOffer now rand gs0 =
     (let gs = clearOfferTimer (clearTurnTimer gs0)
      in case getLastActivePlayer gs of
           Some lastPlayer \<Rightarrow> finishLastPlayer now lastPlayer gs
         | None \<Rightarrow>
             if checkGameEnd gs then finishGame now gs
             else
               let offer = calculateBankerOffer (remainingValues gs) (int (currentRound gs)) rand;
                   expiresAt = now + OFFER_TIMEOUT_MS;
                   eligiblePlayerIds = map id_p (filter isActivePlayer (players gs))
               in gs\<lparr>phase := Offer, currentOffer := offer, offerExpiresAt := Some expiresAt,
                      offerEligiblePlayerIds := eligiblePlayerIds, offerResponses := Map.empty,
                      currentTurnPlayerId := None, turnExpiresAt := None,
                      offerTimer := True\<rparr>)"

text \<open>
  \<open>getNextActivePlayerIndex\<close> returns \<open>-1\<close> or an index of \<open>turnOrder\<close>
  (lemma \<open>getNextActivePlayerIndex_range\<close>), so \<open>turnOrder[nextIdx]\<close> is defined.
\<close>

definition setCurrentTurn :: "int \<Rightarrow> rat \<Rightarrow> GameState \<Rightarrow> GameState" where
  "setCurrentTurn now rand gs =
     (if phase gs \<noteq> Playing then gs
      else if \<not> hasOpenableBoxes gs then triggerBankerOffer now rand gs
      else
        let gs1 = clearTurnTimer gs;
            nextIdx = getNextActivePlayerIndex gs1 (currentTurnIndex gs1)
        in if nextIdx = - 1 then gs1
           else
             let playerId = turnOrder gs1 ! nat nextIdx;
                 expiresAt = now + BOX_OPEN_TIMEOUT_MS
             in gs1\<lparr>currentTurnIndex := nextIdx, currentTurnPlayerId := Some playerId,
                     turnExpiresAt := Some expiresAt, turnTimer := Some playerId\<rparr>)"

definition handleTurnTimeout :: "int \<Rightarrow> rat \<Rightarrow> string \<Rightarrow> GameState \<Rightarrow> GameState" where
  "handleTurnTimeout now rand playerId gs =
     (if phase gs \<noteq> Playing then gs
      else if currentTurnPlayerId gs \<noteq> Some playerId then gs
      else
        let gs1 = updatePlayer playerId (\<lambda>p. p\<lparr>timeoutCount := timeoutCount p + 1\<rparr>) gs;
            nextIdx = getNextActivePlayerIndex gs1 (currentTurnIndex gs1 + 1)
        in if nextIdx = - 1
           then
             let boxesToOpen = getBoxesToOpenForRound (currentRound gs1)
             in if length (boxesOpenedThisRound gs1) \<ge> boxesToOpen
                then triggerBankerOffer now rand gs1 else gs1
           else setCurrentTurn now rand (gs1\<lparr>currentTurnIndex := nextIdx\<rparr>))"

definition startNewRound :: "int \<Rightarrow> rat \<Rightarrow> GameState \<Rightarrow> GameState" where
  "startNewRound now rand gs0 =
     (let gs = clearOfferTimer (clearTurnTimer gs0)
      in case getLastActivePlayer gs of
           Some lastPlayer \<Rightarrow> finishLastPlayer now lastPlayer gs
         | None \<Rightarrow>
             let newRound = currentRound gs + 1
             in setCurrentTurn now rand
                  (gs\<lparr>currentRound := newRound, boxesOpenedThisRound := [], phase := Playing,
                      currentOffer := None, offerExpiresAt := None,
                      offerEligiblePlayerIds := [], offerResponses := Map.empty,
                      currentTurnPlayerId := None, turnExpiresAt := None\<rparr>))"

definition endOfferAndContinue :: "int \<Rightarrow> rat \<Rightarrow> GameState \<Rightarrow> GameState" where
  "endOfferAndContinue now rand gs0 =
     (let gs = clearOfferTimer gs0
      in if checkGameEnd gs then finishGame now gs
         else case getLastActivePlayer gs of
                Some lastPlayer \<Rightarrow> finishLastPlayer now lastPlayer gs
              | None \<Rightarrow> startNewRound now rand gs)"

text \<open>
  The \<open>forEach\<close> of \<open>handleOfferTimeout\<close>: one step per eligible id, in order.
\<close>

definition defaultNoDeal :: "string \<Rightarrow> GameState \<Rightarrow> GameState" where
  "defaultNoDeal playerId gs =
     (if offerResponses gs playerId = None
      then updatePlayer playerId (\<lambda>p. p\<lparr>timeoutCount := timeoutCount p + 1\<rparr>)
             (gs\<lparr>offerResponses := (offerResponses gs)(playerId \<mapsto> False)\<rparr>)
      else gs)"

definition applyOfferDefaults :: "GameState \<Rightarrow> GameState" where
  "applyOfferDefaults gs = fold defaultNoDeal (offerEligiblePlayerIds gs) gs"

definition handleOfferTimeout :: "int \<Rightarrow> rat \<Rightarrow> GameState \<Rightarrow> GameState" where
  "handleOfferTimeout now rand gs =
     (if phase gs \<noteq> Offer then gs
      else endOfferAndContinue now rand (applyOfferDefaults gs))"

subsection \<open>Client events\<close>

text \<open>
  The store resolves the socket of an event to a player id and the player id to the
  room; the handlers below start from the resolved player id.
\<close>

definition onJoinRoom :: "string \<Rightarrow> string \<Rightarrow> string \<Rightarrow> string option \<Rightarrow> bool \<Rightarrow> GameState \<Rightarrow> GameState" where
  "onJoinRoom newPlayerId sock playerName pw asSpectator gs =
     (if length (trim playerName) = 0 then gs
      else case joinRoom newPlayerId sock (trim playerName) pw asSpectator gs of
             Inl err \<Rightarrow> gs
           | Inr gs' \<Rightarrow> gs')"

definition selectBox :: "string \<Rightarrow> int \<Rightarrow> GameState \<Rightarrow> GameState" where
  "selectBox playerId n gs =
     (case getPlayer gs playerId of
        None \<Rightarrow> gs
      | Some player \<Rightarrow>
          if role player \<noteq> RolePlayer then gs
          else if phase gs \<noteq> Waiting \<and> phase gs \<noteq> Selection then gs
          else if isReady player then gs
          else if n < 1 \<or> n > int (length (boxes gs)) then gs
          else if list_ex (\<lambda>p. boxNumber p = Some n \<and> id_p p \<noteq> playerId) (players gs) then gs
          else updatePlayer playerId (\<lambda>p. p\<lparr>boxNumber := Some n\<rparr>) gs)"

definition playerReady :: "string \<Rightarrow> GameState \<Rightarrow> GameState" where
  "playerReady playerId gs =
     (case getPlayer gs playerId of
        None \<Rightarrow> gs
      | Some player \<Rightarrow>
          if boxNumber player = None \<or> boxNumber player = Some 0 \<or> role player \<noteq> RolePlayer
          then gs
          else updatePlayer playerId (\<lambda>p. p\<lparr>isReady := True\<rparr>) gs)"

text \<open>\<open>startRand\<close> is the random draw that picks the starting player.\<close>

definition startGame :: "string \<Rightarrow> rat \<Rightarrow> int \<Rightarrow> rat \<Rightarrow> GameState \<Rightarrow> GameState" where
  "startGame playerId startRand now rand gs =
     (if hostId gs \<noteq> playerId then gs
      else if \<not> allPlayersReady gs then gs
      else
        let activePlayers = filter isContestant (players gs);
            turnOrder' = map id_p activePlayers;
            startIndex = \<lfloor>startRand * of_nat (length turnOrder')\<rfloor>;
            assign = (\<lambda>player.
              if boxNumber player \<noteq> None \<and> role player = RolePlayer
              then (case findBox gs (boxNumber player) of
                      None \<Rightarrow> player
                    | Some box \<Rightarrow> player\<lparr>boxValue := Some (value_b box)\<rparr>)
              else player)
        in setCurrentTurn now rand
             (gs\<lparr>players := map assign (players gs), phase := Playing, currentRound := 1,
                 startedAt := Some now, turnOrder := turnOrder', currentTurnIndex := startIndex,
                 offerEligiblePlayerIds := [], offerResponses := Map.empty\<rparr>))"

definition onSetRoomPassword :: "string \<Rightarrow> string option \<Rightarrow> GameState \<Rightarrow> GameState" where
  "onSetRoomPassword playerId pw gs =
     (if hostId gs \<noteq> playerId then gs
      else if phase gs \<noteq> Waiting then gs
      else
        let raw = (case pw of None \<Rightarrow> [] | Some s \<Rightarrow> trim s)
        in setRoomPassword (if length raw > 0 then Some (take 64 raw) else None) gs)"

definition openBox :: "string \<Rightarrow> int \<Rightarrow> int \<Rightarrow> rat \<Rightarrow> GameState \<Rightarrow> GameState" where
  "openBox playerId n now rand gs =
     (if phase gs \<noteq> Playing then gs
      else if currentTurnPlayerId gs \<noteq> Some playerId then gs
      else case getPlayer gs playerId of
        None \<Rightarrow> gs
      | Some player \<Rightarrow>
          if hasDealt player \<or> role player \<noteq> RolePlayer then gs
          else
            let boxesToOpenForThisRound = getBoxesToOpenForRound (currentRound gs)
            in if length (boxesOpenedThisRound gs) \<ge> boxesToOpenForThisRound then gs
               else case find (\<lambda>b. number b = n) (boxes gs) of
                 None \<Rightarrow> gs
               | Some box \<Rightarrow>
                   if isOpened box then gs
                   else if find (\<lambda>p. boxNumber p = Some n) (players gs) \<noteq> None then gs
                   else
                     let gs1 = clearTurnTimer gs;
                         gs2 = openFoundBox box playerId gs1;
                         gs3 = gs2\<lparr>boxesOpenedThisRound := boxesOpenedThisRound gs2 @ [n]\<rparr>;
                         roundComplete = (length (boxesOpenedThisRound gs3) \<ge> boxesToOpenForThisRound
                                          \<or> \<not> hasOpenableBoxes gs3)
                     in if roundComplete
                        then
                          let nextStartIdx = getNextActivePlayerIndex gs3 (currentTurnIndex gs3 + 1)
                          in gs3\<lparr>currentTurnIndex :=
                                   (if nextStartIdx \<noteq> - 1 then nextStartIdx else currentTurnIndex gs3),
                                 currentTurnPlayerId := None, turnExpiresAt := None,
                                 pendingOffers := pendingOffers gs3 + 1\<rparr>
                        else
                          let nextIdx = getNextActivePlayerIndex gs3 (currentTurnIndex gs3 + 1)
                          in if nextIdx \<noteq> - 1
                             then setCurrentTurn now rand (gs3\<lparr>currentTurnIndex := nextIdx\<rparr>)
                             else gs3)"

text \<open>
  The legacy batch event repeats the statements of \<open>open-box\<close> for the first number of its
  payload.
\<close>

definition openBoxes :: "string \<Rightarrow> int list \<Rightarrow> int \<Rightarrow> rat \<Rightarrow> GameState \<Rightarrow> GameState" where
  "openBoxes playerId boxNumbers now rand gs =
     (case boxNumbers of [] \<Rightarrow> gs | n # rest \<Rightarrow> openBox playerId n now rand gs)"

text \<open>
  The branch of the deal-response handler for an accepted offer: settle the player, open
  the personal box, take the player out of the rotation.
\<close>

definition acceptDeal :: "string \<Rightarrow> Player \<Rightarrow> rat \<Rightarrow> GameState \<Rightarrow> GameState" where
  "acceptDeal playerId player offer gs =
     (let points' = calculatePoints offer (orZero (boxValue player)) (int (currentRound gs))
                      False False (int (timeoutCount player));
          gs1 = updatePlayer playerId
                  (\<lambda>p. p\<lparr>hasDealt := True, dealAmount := Some offer,
                          roundDealt := Some (currentRound gs), isLastStanding := False,
                          points := points'\<rparr>) gs;
          gs2 = (case findBox gs1 (boxNumber player) of
                   None \<Rightarrow> gs1
                 | Some box \<Rightarrow> if \<not> isOpened box then openFoundBox box playerId gs1 else gs1);
          turnIdx = indexOf (turnOrder gs2) playerId
      in if turnIdx > - 1
         then
           let gs3 = gs2\<lparr>turnOrder := spliceOut (nat turnIdx) (turnOrder gs2)\<rparr>
           in if turnIdx < currentTurnIndex gs3
              then gs3\<lparr>currentTurnIndex := max 0 (currentTurnIndex gs3 - 1)\<rparr>
              else gs3
         else gs2)"

definition allResponded :: "GameState \<Rightarrow> bool" where
  "allResponded gs = list_all (\<lambda>pid. offerResponses gs pid \<noteq> None) (offerEligiblePlayerIds gs)"

text \<open>
  The statements of the deal-response handler between its guards and its check whether
  the offer is resolved: record the response and, for an accepted offer, settle the deal.
\<close>

definition recordDealResponse :: "string \<Rightarrow> Player \<Rightarrow> bool \<Rightarrow> GameState \<Rightarrow> GameState" where
  "recordDealResponse playerId player accepted gs =
     (let gs1 = gs\<lparr>offerResponses := (offerResponses gs)(playerId \<mapsto> accepted)\<rparr>
      in case currentOffer gs1 of
           Some offer \<Rightarrow> if accepted then acceptDeal playerId player offer gs1 else gs1
         | None \<Rightarrow> gs1)"

definition dealResponse :: "string \<Rightarrow> bool \<Rightarrow> int \<Rightarrow> rat \<Rightarrow> GameState \<Rightarrow> GameState" where
  "dealResponse playerId accepted now rand gs =
     (if phase gs \<noteq> Offer then gs
      else case getPlayer gs playerId of
        None \<Rightarrow> gs
      | Some player \<Rightarrow>
          if hasDealt player \<or> role player \<noteq> RolePlayer then gs
          else if offerResponses gs playerId \<noteq> None then gs
          else if playerId \<notin> set (offerEligiblePlayerIds gs) then gs
          else
            let gs2 = recordDealResponse playerId player accepted gs
            in if allResponded gs2 then endOfferAndContinue now rand gs2 else gs2)"

subsection \<open>Events and reachable rooms\<close>

datatype Event =
    JoinRoom string string string "string option" bool
  | Disconnect string
  | Reconnect string string
  | SelectBox string int
  | PlayerReady string
  | StartGame string rat
  | SetRoomPassword string "string option"
  | OpenBox string int
  | OpenBoxes string "int list"
  | DealResponse string bool
  | TurnTimerFires
  | OfferTimerFires
  | DelayedOfferFires

text \<open>
  A timer callback runs only while it is pending, and is no longer pending once it runs.
\<close>

fun handle :: "int \<Rightarrow> rat \<Rightarrow> Event \<Rightarrow> GameState \<Rightarrow> GameState" where
  "handle now rand (JoinRoom newPlayerId sock playerName pw asSpectator) gs =
     onJoinRoom newPlayerId sock playerName pw asSpectator gs"
| "handle now rand (Disconnect playerId) gs = handleDisconnect playerId gs"
| "handle now rand (Reconnect playerId sock) gs = reconnectPlayer playerId sock gs"
| "handle now rand (SelectBox playerId n) gs = selectBox playerId n gs"
| "handle now rand (PlayerReady playerId) gs = playerReady playerId gs"
| "handle now rand (StartGame playerId startRand) gs = startGame playerId startRand now rand gs"
| "handle now rand (SetRoomPassword playerId pw) gs = onSetRoomPassword playerId pw gs"
| "handle now rand (OpenBox playerId n) gs = openBox playerId n now rand gs"
| "handle now rand (OpenBoxes playerId ns) gs = openBoxes playerId ns now rand gs"
| "handle now rand (DealResponse playerId accepted) gs = dealResponse playerId accepted now rand gs"
| "handle now rand TurnTimerFires gs =
     (case turnTimer gs of
        None \<Rightarrow> gs
      | Some playerId \<Rightarrow> handleTurnTimeout now rand playerId (gs\<lparr>turnTimer := None\<rparr>))"
| "handle now rand OfferTimerFires gs =
     (if offerTimer gs then handleOfferTimeout now rand (gs\<lparr>offerTimer := False\<rparr>) else gs)"
| "handle now rand DelayedOfferFires gs =
     (if pendingOffers gs > 0
      then triggerBankerOffer now rand (gs\<lparr>pendingOffers := pendingOffers gs - 1\<rparr>)
      else gs)"

text \<open>
  What the environment guarantees for an event: a generated player id is new in the room,
  and a random draw lies in \<open>[0, 1)\<close>.
\<close>

fun admissible :: "Event \<Rightarrow> GameState \<Rightarrow> bool" where
  "admissible (JoinRoom newPlayerId sock playerName pw asSpectator) gs =
     (newPlayerId \<notin> set (map id_p (players gs)))"
| "admissible (StartGame playerId startRand) gs = (0 \<le> startRand \<and> startRand < 1)"
| "admissible e gs = True"

inductive reachable :: "GameState \<Rightarrow> bool" where
  reach_create:
    "(\<And>i. 0 \<le> rands i \<and> rands i < 1) \<Longrightarrow>
     reachable (createRoom code playerId hostSocketId hostName now rands)"
| reach_step:
    "reachable gs \<Longrightarrow> 0 \<le> rand \<Longrightarrow> rand < 1 \<Longrightarrow> admissible e gs \<Longrightarrow>
     reachable (handle now rand e gs)"

text \<open>The partition of the ladder that the room keeps (spec, data model invariants).\<close>

definition openedValues :: "GameState \<Rightarrow> rat multiset" where
  "openedValues gs = mset (map value_b (filter isOpened (boxes gs)))"

definition partitionInv :: "GameState \<Rightarrow> bool" where
  "partitionInv gs =
     (mset (remainingValues gs) + mset (eliminatedValues gs) = mset BOX_VALUES
      \<and> mset (eliminatedValues gs) = openedValues gs)"

text \<open>The invariant that is proved by induction: the boxes hold the ladder, too.\<close>

definition ladderInv :: "GameState \<Rightarrow> bool" where
  "ladderInv gs = (mset (map value_b (boxes gs)) = mset BOX_VALUES \<and> partitionInv gs)"

text \<open>
  The facts about the players and the boxes that the handlers rely on. They only depend
  on the identity, box number, role and \<open>hasDealt\<close> of the players and on the number and
  opened flag of the boxes: player ids are distinct; the boxes are numbered 1 to 20; a
  chosen box number is one of these and is chosen by one player only; before the game
  starts no box is opened and no banker call is scheduled; the personal box of a
  contestant who has not dealt is unopened; \<open>turnOrder\<close> has no duplicates.
\<close>

record PlayerView =
  pv_id :: string
  pv_boxNumber :: "int option"
  pv_role :: PlayerRole
  pv_hasDealt :: bool

record BoxView =
  bv_number :: int
  bv_isOpened :: bool

definition playerView :: "Player \<Rightarrow> PlayerView" where
  "playerView p = \<lparr>pv_id = id_p p, pv_boxNumber = boxNumber p, pv_role = role p,
                    pv_hasDealt = hasDealt p\<rparr>"

definition boxView :: "Box \<Rightarrow> BoxView" where
  "boxView b = \<lparr>bv_number = number b, bv_isOpened = isOpened b\<rparr>"

definition inLobby :: "GamePhase \<Rightarrow> bool" where
  "inLobby ph = (ph = Waiting \<or> ph = Selection)"

definition wfCore :: "GamePhase \<Rightarrow> nat \<Rightarrow> string list \<Rightarrow> PlayerView list \<Rightarrow> BoxView list \<Rightarrow> bool" where
  "wfCore ph pending order pvs bvs =
     (distinct (map pv_id pvs)
      \<and> length bvs = 20 \<and> set (map bv_number bvs) = {1..20}
      \<and> (\<forall>v \<in> set pvs. \<forall>n. pv_boxNumber v = Some n \<longrightarrow> 1 \<le> n \<and> n \<le> 20)
      \<and> (\<forall>v \<in> set pvs. \<forall>w \<in> set pvs. \<forall>n.
            pv_boxNumber v = Some n \<and> pv_boxNumber w = Some n \<longrightarrow> pv_id v = pv_id w)
      \<and> (inLobby ph \<longrightarrow> (\<forall>b \<in> set bvs. \<not> bv_isOpened b) \<and> pending = 0)
      \<and> (\<forall>v \<in> set pvs. pv_role v = RolePlayer \<and> \<not> pv_hasDealt v \<longrightarrow>
            (\<forall>b \<in> set bvs. pv_boxNumber v = Some (bv_number b) \<longrightarrow> \<not> bv_isOpened b))
      \<and> distinct order)"

definition wellFormed :: "GameState \<Rightarrow> bool" where
  "wellFormed gs =
     wfCore (phase gs) (pendingOffers gs) (turnOrder gs)
       (map playerView (players gs)) (map boxView (boxes gs))"

text \<open>What dealing and opening a box do to these views.\<close>

definition openView :: "int \<Rightarrow> BoxView list \<Rightarrow> BoxView list" where
  "openView n bvs = updateFirst (\<lambda>b. bv_number b = n) (\<lambda>b. b\<lparr>bv_isOpened := True\<rparr>) bvs"

definition dealView :: "string \<Rightarrow> PlayerView list \<Rightarrow> PlayerView list" where
  "dealView pid pvs = updateFirst (\<lambda>v. pv_id v = pid) (\<lambda>v. v\<lparr>pv_hasDealt := True\<rparr>) pvs"

text \<open>
  The outcome of the last-standing reveal for the contestant \<open>pl\<close> in round \<open>r\<close>, in the
  words of the specification: the game is finished, the contestant has dealt for the value
  of the personal box as last standing player in round \<open>r\<close>, and the personal box is opened
  with the contestant as opener.
\<close>

definition lastStandingSettled :: "Player \<Rightarrow> nat \<Rightarrow> GameState \<Rightarrow> bool" where
  "lastStandingSettled pl r gs' =
     (phase gs' = Finished
      \<and> (\<exists>p'. getPlayer gs' (id_p pl) = Some p' \<and> hasDealt p' \<and> dealAmount p' = boxValue pl
               \<and> isLastStanding p' \<and> roundDealt p' = Some r)
      \<and> (\<exists>b'. findBox gs' (boxNumber pl) = Some b' \<and> isOpened b'
               \<and> openedByPlayerId b' = Some (id_p pl)))"

subsection \<open>Example rooms\<close>

text \<open>
  A room with three contestants, played up to its first offer. Every shuffle draw is 0,
  the starting player is the third contestant, and the banker's draw is one half.
\<close>

definition demoRands :: "nat \<Rightarrow> rat" where
  "demoRands i = 0"

definition run :: "Event list \<Rightarrow> GameState \<Rightarrow> GameState" where
  "run es gs = fold (handle 0 (1 / 2)) es gs"

definition demoRoom :: GameState where
  "demoRoom = createRoom ''ROOM42'' ''p1'' ''s1'' ''Ann'' 0 demoRands"

definition demoLobbyEvents :: "Event list" where
  "demoLobbyEvents =
     [JoinRoom ''p2'' ''s2'' ''Bob'' None False, JoinRoom ''p3'' ''s3'' ''Cat'' None False,
      SelectBox ''p1'' 1, SelectBox ''p2'' 20, SelectBox ''p3'' 7,
      PlayerReady ''p1'', PlayerReady ''p2'', PlayerReady ''p3'']"

definition demoLobby :: GameState where
  "demoLobby = run demoLobbyEvents demoRoom"

definition demoRoundEvents :: "Event list" where
  "demoRoundEvents =
     [StartGame ''p1'' (2 / 3), OpenBox ''p3'' 2, OpenBox ''p1'' 3, OpenBox ''p2'' 4,
      OpenBox ''p3'' 5, OpenBox ''p1'' 6]"

definition demoRoundDone :: GameState where
  "demoRoundDone = run demoRoundEvents demoLobby"

definition demoOffer :: GameState where
  "demoOffer = run [DelayedOfferFires] demoRoundDone"

definition demoOneAnswer :: GameState where
  "demoOneAnswer = run [DealResponse ''p1'' False] demoOffer"

definition demoTwoDealt :: GameState where
  "demoTwoDealt = run [DealResponse ''p1'' True, DealResponse ''p3'' True] demoOffer"

text \<open>Whether each event of a run is admissible where it happens.\<close>

fun admissibleRun :: "Event list \<Rightarrow> GameState \<Rightarrow> bool" where
  "admissibleRun [] gs = True"
| "admissibleRun (e # es) gs = (admissible e gs \<and> admissibleRun es (handle 0 (1 / 2) e gs))"

section \<open>Scoring\<close>

text \<open>
  Claim C2. For every input, \<open>calculatePoints\<close> returns the capped base
  \<open>min (floor (finalWinnings / 100)) 3000\<close>, plus 200 for a smart deal, plus 150 from round 4
  on, minus 50 up to round 2, plus 200 for the last standing player, plus 200 for the highest
  winnings, minus 50 per timeout, and never less than 0. Being a function of its six
  arguments, the result is determined by them.
\<close>

theorem calculatePoints_formula:
  "calculatePoints finalWinnings finalBoxValue roundDealt' isLastStanding' isHighestWinnings timeoutCount' =
     max 0 (min \<lfloor>finalWinnings / 100\<rfloor> 3000
            + (if finalWinnings > finalBoxValue then 200 else 0)
            + (if roundDealt' \<ge> 4 then 150 else 0)
            - (if roundDealt' \<le> 2 then 50 else 0)
            + (if isLastStanding' then 200 else 0)
            + (if isHighestWinnings then 200 else 0)
            - 50 * timeoutCount')
   \<and> 0 \<le> calculatePoints finalWinnings finalBoxValue roundDealt' isLastStanding' isHighestWinnings timeoutCount'"
  by (auto simp add: calculatePoints_def Let_def)

section \<open>Banker\<close>






section \<open>Name sanitisation\<close>

lemma dropWhile_id: "xs = [] \<or> \<not> P (hd xs) \<Longrightarrow> dropWhile P xs = xs"
  by (cases xs) auto

lemma trim_fixed:
  assumes "s = [] \<or> (\<not> isWhiteSpace (hd s) \<and> \<not> isWhiteSpace (last s))"
  shows "trim s = s"
proof -
  have 1: "dropWhile isWhiteSpace s = s" using assms by (intro dropWhile_id) auto
  have 2: "dropWhile isWhiteSpace (rev s) = rev s"
    using assms by (intro dropWhile_id) (auto simp add: hd_rev)
  show ?thesis by (simp add: trim_def 1 2)
qed

lemma trim_hd: "trim s \<noteq> [] \<Longrightarrow> \<not> isWhiteSpace (hd (trim s))"
proof -
  assume ne: "trim s \<noteq> []"
  define d where "d = dropWhile isWhiteSpace s"
  define e where "e = dropWhile isWhiteSpace (rev d)"
  have t: "trim s = rev e" by (simp add: trim_def d_def e_def)
  with ne have e_ne: "e \<noteq> []" by simp
  then have d_ne: "d \<noteq> []" unfolding e_def by auto
  have "last e = last (rev d)"
    using e_ne unfolding e_def by (metis dropWhile_eq_Nil_conv last_appendR takeWhile_dropWhile_id)
  then have "hd (trim s) = hd d" using e_ne d_ne by (simp add: t hd_rev last_rev)
  moreover have "\<not> isWhiteSpace (hd d)" using d_ne unfolding d_def by (rule hd_dropWhile)
  ultimately show ?thesis by simp
qed

lemma trim_last: "trim s \<noteq> [] \<Longrightarrow> \<not> isWhiteSpace (last (trim s))"
proof -
  assume ne: "trim s \<noteq> []"
  define e where "e = dropWhile isWhiteSpace (rev (dropWhile isWhiteSpace s))"
  have t: "trim s = rev e" by (simp add: trim_def e_def)
  with ne have e_ne: "e \<noteq> []" by simp
  then have "\<not> isWhiteSpace (hd e)" unfolding e_def by (rule hd_dropWhile)
  then show ?thesis using e_ne by (simp add: t last_rev)
qed

lemma replaceVowels_ws: "isWhiteSpace (if isVowel c then CHR ''*'' else c) = isWhiteSpace c"
  by (auto simp add: isWhiteSpace_def isVowel_def)

lemma dropWhile_replaceVowels:
  "dropWhile isWhiteSpace (replaceVowels xs) = replaceVowels (dropWhile isWhiteSpace xs)"
  by (simp add: replaceVowels_def dropWhile_map comp_def replaceVowels_ws)

lemma rev_replaceVowels: "rev (replaceVowels xs) = replaceVowels (rev xs)"
  by (simp add: replaceVowels_def rev_map)

lemma trim_replaceVowels: "trim (replaceVowels s) = replaceVowels (trim s)"
  by (simp add: trim_def dropWhile_replaceVowels rev_replaceVowels)

lemma replaceVowels_idem: "replaceVowels (replaceVowels s) = replaceVowels s"
  by (simp add: replaceVowels_def isVowel_def)

lemma length_replaceVowels: "length (replaceVowels s) = length s"
  by (simp add: replaceVowels_def)

lemma sanitiseName_fixed:
  assumes "trim t = t" and "length t \<le> MAX_NAME_LENGTH"
  shows "sanitiseName t = (if containsProfanity t then replaceVowels t else t)"
    and "sanitiseName (replaceVowels t) = replaceVowels t"
  using assms
  by (simp_all add: sanitiseName_def Let_def trim_replaceVowels replaceVowels_idem length_replaceVowels)

lemma sanitiseName_idem_core:
  assumes "trim (take MAX_NAME_LENGTH (trim x)) = take MAX_NAME_LENGTH (trim x)"
  shows "sanitiseName (sanitiseName x) = sanitiseName x"
proof -
  define t where "t = take MAX_NAME_LENGTH (trim x)"
  have t: "trim t = t" "length t \<le> MAX_NAME_LENGTH" using assms by (simp_all add: t_def)
  have s: "sanitiseName x = (if containsProfanity t then replaceVowels t else t)"
    by (simp add: sanitiseName_def Let_def t_def)
  show ?thesis
    unfolding s using sanitiseName_fixed[OF t] by simp
qed

lemma take_trim_fixed:
  assumes "take n (trim x) = [] \<or> \<not> isWhiteSpace (last (take n (trim x)))"
  shows "trim (take n (trim x)) = take n (trim x)"
proof (cases "take n (trim x) = []")
  case True
  then show ?thesis by (simp add: trim_fixed)
next
  case False
  then have ne: "trim x \<noteq> []" and n: "0 < n" by auto
  have "hd (take n (trim x)) = hd (trim x)" using n by simp
  then have "\<not> isWhiteSpace (hd (take n (trim x)))" using trim_hd[OF ne] by simp
  then show ?thesis using assms False by (intro trim_fixed) simp
qed

text \<open>
  Claim C9, as amended. \<open>sanitiseName\<close> trims before it truncates, so the 16 characters it
  keeps can end in white space, which a second run trims away. Whenever the truncated
  name is empty or does not end in white space, \<open>sanitiseName (sanitiseName x)\<close> equals
  \<open>sanitiseName x\<close>.
\<close>

theorem sanitiseName_idempotent:
  assumes "take MAX_NAME_LENGTH (trim x) = [] \<or> \<not> isWhiteSpace (last (take MAX_NAME_LENGTH (trim x)))"
  shows "sanitiseName (sanitiseName x) = sanitiseName x"
  using assms by (intro sanitiseName_idem_core take_trim_fixed)

text \<open>In particular the filter is idempotent on every name of at most 16 characters after trimming.\<close>

lemma sanitiseName_short_idempotent:
  assumes "length (trim x) \<le> MAX_NAME_LENGTH"
  shows "sanitiseName (sanitiseName x) = sanitiseName x"
proof -
  have "take MAX_NAME_LENGTH (trim x) = trim x" using assms by simp
  moreover have "trim (trim x) = trim x"
    using trim_hd[of x] trim_last[of x] by (intro trim_fixed) blast
  ultimately show ?thesis by (intro sanitiseName_idem_core) simp
qed

lemma length_sanitiseName: "length (sanitiseName x) = min MAX_NAME_LENGTH (length (trim x))"
  by (simp add: sanitiseName_def Let_def length_replaceVowels min.commute)

lemma length_dropWhile_less:
  "xs \<noteq> [] \<Longrightarrow> P (hd xs) \<Longrightarrow> length (dropWhile P xs) < length xs"
  by (cases xs) (simp_all add: le_imp_less_Suc length_dropWhile_le)

lemma length_trim_less:
  assumes "s \<noteq> []" "isWhiteSpace (last s)"
  shows "length (trim s) < length s"
proof -
  define d where "d = dropWhile isWhiteSpace s"
  have len: "length (trim s) = length (dropWhile isWhiteSpace (rev d))"
    by (simp add: trim_def d_def)
  show ?thesis
  proof (cases "d = s")
    case True
    have "length (dropWhile isWhiteSpace (rev s)) < length (rev s)"
      using assms by (intro length_dropWhile_less) (simp_all add: hd_rev)
    then show ?thesis using len True by simp
  next
    case False
    then have "isWhiteSpace (hd s)" unfolding d_def using assms(1) by (cases s) (auto split: if_splits)
    then have "length d < length s" unfolding d_def using assms(1) by (intro length_dropWhile_less)
    moreover have "length (dropWhile isWhiteSpace (rev d)) \<le> length (rev d)"
      by (rule length_dropWhile_le)
    ultimately show ?thesis using len by simp
  qed
qed

text \<open>The condition is exact: a truncated name that ends in white space is changed again.\<close>

lemma sanitiseName_not_idempotent:
  assumes "take MAX_NAME_LENGTH (trim x) \<noteq> []"
    and "isWhiteSpace (last (take MAX_NAME_LENGTH (trim x)))"
  shows "sanitiseName (sanitiseName x) \<noteq> sanitiseName x"
proof -
  define t where "t = take MAX_NAME_LENGTH (trim x)"
  have s: "sanitiseName x = (if containsProfanity t then replaceVowels t else t)"
    by (simp add: sanitiseName_def Let_def t_def)
  have ne: "sanitiseName x \<noteq> []"
    using assms(1) by (auto simp add: s t_def replaceVowels_def)
  have "last (sanitiseName x) = (if isVowel (last t) then CHR ''*'' else last t) \<or> last (sanitiseName x) = last t"
    using assms(1) by (auto simp add: s t_def replaceVowels_def last_map)
  then have ws: "isWhiteSpace (last (sanitiseName x))"
    using assms(2) replaceVowels_ws[of "last t"] by (auto simp add: t_def split: if_splits)
  have "length (sanitiseName (sanitiseName x)) \<le> length (trim (sanitiseName x))"
    by (simp add: length_sanitiseName)
  also have "\<dots> < length (sanitiseName x)" using ne ws by (rule length_trim_less)
  finally show ?thesis by auto
qed

text \<open>
  Claim C9 as stated fails: the name below is cut after the space that follows \<open>Lee\<close>,
  and the second run removes that space.
\<close>

theorem sanitiseName_counterexample:
  "sanitiseName ''Christopher Lee Jones'' = ''Christopher Lee ''
   \<and> sanitiseName (sanitiseName ''Christopher Lee Jones'') = ''Christopher Lee''
   \<and> sanitiseName (sanitiseName ''Christopher Lee Jones'') \<noteq> sanitiseName ''Christopher Lee Jones''"
  by code_simp

theorem sanitiseName_idempotent_witness:
  "sanitiseName ''  Dick Tracy '' = ''D*ck Tr*cy''
   \<and> sanitiseName (sanitiseName ''  Dick Tracy '') = sanitiseName ''  Dick Tracy ''"
proof -
  have h: "take MAX_NAME_LENGTH (trim ''  Dick Tracy '') = []
           \<or> \<not> isWhiteSpace (last (take MAX_NAME_LENGTH (trim ''  Dick Tracy '')))"
    by code_simp
  have v: "sanitiseName ''  Dick Tracy '' = ''D*ck Tr*cy''"
    by code_simp
  from sanitiseName_idempotent[OF h] v show ?thesis by simp
qed

section \<open>State projection\<close>

text \<open>
  Claim C6. For every room and every recipient, the snapshot lists the boxes in order with
  their numbers and opened flags; the value of a box is present exactly when the box is
  opened, and is then the box's value; \<open>isPlayerBox\<close> holds exactly when the recipient is
  a player of the room whose \<open>boxNumber\<close> is the number of the box.
\<close>

theorem createGameStateUpdate_boxes:
  "map bp_number (u_boxes (createGameStateUpdate gs forPlayerId recent)) = map number (boxes gs)
   \<and> map bp_isOpened (u_boxes (createGameStateUpdate gs forPlayerId recent)) = map isOpened (boxes gs)
   \<and> map bp_value (u_boxes (createGameStateUpdate gs forPlayerId recent))
       = map (\<lambda>b. if isOpened b then Some (value_b b) else None) (boxes gs)
   \<and> map bp_isPlayerBox (u_boxes (createGameStateUpdate gs forPlayerId recent))
       = map (\<lambda>b. \<exists>p. getPlayer gs forPlayerId = Some p \<and> boxNumber p = Some (number b)) (boxes gs)"
  by (auto simp add: createGameStateUpdate_def Let_def split: option.splits)

section \<open>Offers\<close>

lemma finishGame_phase: "phase (finishGame now gs) = Finished"
  by (simp add: finishGame_def Let_def clearOfferTimer_def clearTurnTimer_def)

lemma finishLastPlayer_phase: "phase (finishLastPlayer now p gs) = Finished"
  by (simp add: finishLastPlayer_def Let_def finishGame_phase)

text \<open>
  Claim C7. Whenever \<open>triggerBankerOffer\<close> puts the room into the offer phase, the eligible
  ids are the ids of the players with role player, a box number and \<open>hasDealt = false\<close> at
  that moment, in join order. A deal response of a sender who is not eligible, or who
  already has a response recorded for the offer, leaves the room as it was; so a response
  is recorded only for an eligible sender without a recorded response.
\<close>

theorem offer_eligibility:
  "(phase (triggerBankerOffer now rand gs) = Offer \<longrightarrow>
      offerEligiblePlayerIds (triggerBankerOffer now rand gs)
        = map id_p (filter (\<lambda>p. role p = RolePlayer \<and> boxNumber p \<noteq> None \<and> \<not> hasDealt p) (players gs))
      \<and> players (triggerBankerOffer now rand gs) = players gs)
   \<and> (playerId \<notin> set (offerEligiblePlayerIds gs') \<or> offerResponses gs' playerId \<noteq> None \<longrightarrow>
      dealResponse playerId accepted now' rand' gs' = gs')"
proof (intro conjI impI)
  assume ph: "phase (triggerBankerOffer now rand gs) = Offer"
  have act: "isActivePlayer = (\<lambda>p. role p = RolePlayer \<and> boxNumber p \<noteq> None \<and> \<not> hasDealt p)"
    by (rule ext) (simp add: isActivePlayer_def)
  from ph show "offerEligiblePlayerIds (triggerBankerOffer now rand gs)
        = map id_p (filter (\<lambda>p. role p = RolePlayer \<and> boxNumber p \<noteq> None \<and> \<not> hasDealt p) (players gs))"
    by (simp add: triggerBankerOffer_def Let_def finishGame_phase finishLastPlayer_phase act
        clearOfferTimer_def clearTurnTimer_def split: option.splits if_splits)
  from ph show "players (triggerBankerOffer now rand gs) = players gs"
    by (simp add: triggerBankerOffer_def Let_def finishGame_phase finishLastPlayer_phase
        clearOfferTimer_def clearTurnTimer_def split: option.splits if_splits)
next
  assume "playerId \<notin> set (offerEligiblePlayerIds gs') \<or> offerResponses gs' playerId \<noteq> None"
  then show "dealResponse playerId accepted now' rand' gs' = gs'"
    by (auto simp add: dealResponse_def split: option.splits)
qed

theorem offer_eligibility_witness:
  "phase (triggerBankerOffer 0 (1 / 2) demoRoundDone) = Offer
   \<and> offerEligiblePlayerIds (triggerBankerOffer 0 (1 / 2) demoRoundDone) = [''p1'', ''p2'', ''p3'']
   \<and> offerResponses demoOneAnswer ''p1'' \<noteq> None
   \<and> dealResponse ''p1'' True 0 (1 / 2) demoOneAnswer = demoOneAnswer"
proof -
  have ph: "phase (triggerBankerOffer 0 (1 / 2) demoRoundDone) = Offer"
    by code_simp
  have ids: "map id_p (filter (\<lambda>p. role p = RolePlayer \<and> boxNumber p \<noteq> None \<and> \<not> hasDealt p)
                (players demoRoundDone)) = [''p1'', ''p2'', ''p3'']"
    by code_simp
  have ans: "offerResponses demoOneAnswer ''p1'' \<noteq> None"
    by code_simp
  show ?thesis
    using offer_eligibility [of 0 "1 / 2" demoRoundDone "''p1''" demoOneAnswer True 0 "1 / 2"] ph ids ans
    by simp
qed

section \<open>Round quota\<close>

text \<open>
  Claim C10. Once the number of boxes opened in the round has reached the quota of the
  round, an open-box event (and its legacy batch form) from any sender and for any box
  leaves the whole room unchanged, pending timers included. The phase does not matter.
\<close>

theorem quota_met_open_ignored:
  assumes "length (boxesOpenedThisRound gs) \<ge> getBoxesToOpenForRound (currentRound gs)"
  shows "handle now rand (OpenBox playerId n) gs = gs
       \<and> handle now rand (OpenBoxes playerId ns) gs = gs"
  using assms by (simp add: openBox_def openBoxes_def Let_def split: option.splits list.splits)

theorem quota_met_open_ignored_witness:
  "phase demoRoundDone = Playing
   \<and> length (boxesOpenedThisRound demoRoundDone) \<ge> getBoxesToOpenForRound (currentRound demoRoundDone)
   \<and> handle 0 (1 / 2) (OpenBox ''p2'' 8) demoRoundDone = demoRoundDone
   \<and> handle 0 (1 / 2) (OpenBoxes ''p2'' [8, 9]) demoRoundDone = demoRoundDone"
proof -
  have ph: "phase demoRoundDone = Playing"
    by code_simp
  have quota: "length (boxesOpenedThisRound demoRoundDone) \<ge> getBoxesToOpenForRound (currentRound demoRoundDone)"
    by code_simp
  show ?thesis
    using quota_met_open_ignored [OF quota, of 0 "1 / 2" "''p2''" 8 "[8, 9]"] ph quota by simp
qed

section \<open>Offer timeout\<close>

lemma find_map_key:
  "map_option g (find (\<lambda>p. k p = pid) ps) = map_option snd (find (\<lambda>x. fst x = pid) (map (\<lambda>p. (k p, g p)) ps))"
  by (induction ps) simp_all

lemma timeoutCount_lookup_cong:
  assumes "map (\<lambda>p. (id_p p, timeoutCount p)) (players gs') = map (\<lambda>p. (id_p p, timeoutCount p)) (players gs)"
  shows "map_option timeoutCount (getPlayer gs' pid) = map_option timeoutCount (getPlayer gs pid)"
  unfolding getPlayer_def find_map_key[of timeoutCount id_p] using assms by simp

lemma map_updateFirst_same:
  "(\<And>x. g (f x) = g x) \<Longrightarrow> map g (updateFirst P f xs) = map g xs"
  by (induction xs) simp_all

lemma finishGame_idtc:
  "map (\<lambda>p. (id_p p, timeoutCount p)) (players (finishGame now gs)) = map (\<lambda>p. (id_p p, timeoutCount p)) (players gs)"
  by (simp add: finishGame_def Let_def clearOfferTimer_def clearTurnTimer_def)

lemma moveToEliminated_players: "players (moveToEliminated v gs) = players gs"
  by (simp add: moveToEliminated_def Let_def)

lemma openFoundBox_players: "players (openFoundBox box pid gs) = players gs"
  by (simp add: openFoundBox_def moveToEliminated_players)

lemma finishLastPlayer_idtc:
  "map (\<lambda>p. (id_p p, timeoutCount p)) (players (finishLastPlayer now pl gs)) = map (\<lambda>p. (id_p p, timeoutCount p)) (players gs)"
  by (simp add: finishLastPlayer_def Let_def finishGame_idtc openFoundBox_players updatePlayer_def
      map_updateFirst_same split: option.splits)

lemma triggerBankerOffer_idtc:
  "map (\<lambda>p. (id_p p, timeoutCount p)) (players (triggerBankerOffer now rand gs)) = map (\<lambda>p. (id_p p, timeoutCount p)) (players gs)"
  by (simp add: triggerBankerOffer_def Let_def finishGame_idtc finishLastPlayer_idtc
      clearOfferTimer_def clearTurnTimer_def split: option.splits)

lemma setCurrentTurn_idtc:
  "map (\<lambda>p. (id_p p, timeoutCount p)) (players (setCurrentTurn now rand gs)) = map (\<lambda>p. (id_p p, timeoutCount p)) (players gs)"
  by (simp add: setCurrentTurn_def Let_def triggerBankerOffer_idtc clearTurnTimer_def)

lemma startNewRound_idtc:
  "map (\<lambda>p. (id_p p, timeoutCount p)) (players (startNewRound now rand gs)) = map (\<lambda>p. (id_p p, timeoutCount p)) (players gs)"
  by (simp add: startNewRound_def Let_def setCurrentTurn_idtc finishLastPlayer_idtc
      clearOfferTimer_def clearTurnTimer_def split: option.splits)

lemma endOfferAndContinue_idtc:
  "map (\<lambda>p. (id_p p, timeoutCount p)) (players (endOfferAndContinue now rand gs)) = map (\<lambda>p. (id_p p, timeoutCount p)) (players gs)"
  by (simp add: endOfferAndContinue_def Let_def startNewRound_idtc finishLastPlayer_idtc finishGame_idtc
      clearOfferTimer_def split: option.splits)

lemma find_updateFirst_keep:
  "(\<And>x. P (f x) = P x) \<Longrightarrow> find P (updateFirst P f xs) = map_option f (find P xs)"
  by (induction xs) simp_all

lemma find_updateFirst_other:
  "(\<And>x. Q (f x) = Q x) \<Longrightarrow> (\<And>x. P x \<Longrightarrow> \<not> Q x) \<Longrightarrow> find Q (updateFirst P f xs) = find Q xs"
  by (induction xs) auto

lemma getPlayer_updatePlayer_same:
  "(\<And>p. id_p (f p) = id_p p) \<Longrightarrow> getPlayer (updatePlayer pid f gs) pid = map_option f (getPlayer gs pid)"
  by (simp add: getPlayer_def updatePlayer_def find_updateFirst_keep)

lemma getPlayer_updatePlayer_other:
  "(\<And>p. id_p (f p) = id_p p) \<Longrightarrow> pid' \<noteq> pid \<Longrightarrow> getPlayer (updatePlayer pid f gs) pid' = getPlayer gs pid'"
  unfolding getPlayer_def updatePlayer_def
  by simp (rule find_updateFirst_other; simp)

lemma defaultNoDeal_responses:
  "offerResponses (defaultNoDeal q gs) =
     (if offerResponses gs q = None then (offerResponses gs)(q \<mapsto> False) else offerResponses gs)"
  by (simp add: defaultNoDeal_def updatePlayer_def)

lemma defaultNoDeal_getPlayer:
  "getPlayer (defaultNoDeal q gs) pid =
     (if q = pid \<and> offerResponses gs q = None
      then map_option (\<lambda>p. p\<lparr>timeoutCount := timeoutCount p + 1\<rparr>) (getPlayer gs pid)
      else getPlayer gs pid)"
proof -
  have "getPlayer (gs\<lparr>offerResponses := r\<rparr>) pid = getPlayer gs pid" for r
    by (simp add: getPlayer_def)
  then show ?thesis
    by (cases "q = pid")
       (simp_all add: defaultNoDeal_def getPlayer_updatePlayer_same getPlayer_updatePlayer_other)
qed

lemma defaultNoDeal_timeoutCount:
  "map_option timeoutCount (getPlayer (defaultNoDeal q gs) pid) =
     (if q = pid \<and> offerResponses gs q = None
      then map_option (\<lambda>p. timeoutCount p + 1) (getPlayer gs pid)
      else map_option timeoutCount (getPlayer gs pid))"
  by (auto simp add: defaultNoDeal_getPlayer option.map_comp comp_def)

lemma fold_defaultNoDeal_answered:
  "offerResponses gs pid = Some b \<Longrightarrow>
     offerResponses (fold defaultNoDeal qs gs) pid = Some b
     \<and> map_option timeoutCount (getPlayer (fold defaultNoDeal qs gs) pid)
       = map_option timeoutCount (getPlayer gs pid)"
proof (induction qs arbitrary: gs)
  case Nil
  then show ?case by simp
next
  case (Cons q qs)
  have "offerResponses (defaultNoDeal q gs) pid = Some b"
    using Cons.prems by (auto simp add: defaultNoDeal_responses)
  from Cons.IH[OF this] show ?case
    using Cons.prems by (auto simp add: defaultNoDeal_timeoutCount)
qed

lemma fold_defaultNoDeal_silent:
  "offerResponses gs pid = None \<Longrightarrow> pid \<in> set qs \<Longrightarrow>
     offerResponses (fold defaultNoDeal qs gs) pid = Some False
     \<and> map_option timeoutCount (getPlayer (fold defaultNoDeal qs gs) pid)
       = map_option (\<lambda>p. timeoutCount p + 1) (getPlayer gs pid)"
proof (induction qs arbitrary: gs)
  case Nil
  then show ?case by simp
next
  case (Cons q qs)
  show ?case
  proof (cases "q = pid")
    case True
    have r: "offerResponses (defaultNoDeal q gs) pid = Some False"
      using Cons.prems True by (simp add: defaultNoDeal_responses)
    from fold_defaultNoDeal_answered[OF r, of qs] show ?thesis
      using Cons.prems True by (simp add: defaultNoDeal_timeoutCount)
  next
    case False
    have r: "offerResponses (defaultNoDeal q gs) pid = None"
      using Cons.prems False by (simp add: defaultNoDeal_responses)
    have m: "pid \<in> set qs" using Cons.prems False by auto
    from Cons.IH[OF r m] show ?thesis
      using False by (simp add: defaultNoDeal_getPlayer)
  qed
qed

text \<open>
  Claim C8. If the offer timer fires in another phase than the offer phase, the room is
  unchanged. In the offer phase the handler first gives every eligible player without a
  recorded response the response false and then resolves the offer
  (\<open>endOfferAndContinue\<close>, which clears the responses of the offer that ended). For every
  eligible player without a response, the response before the resolution is false and the
  player's \<open>timeoutCount\<close> after the handler is one more than before; for every player
  with a recorded response, the response before the resolution and the \<open>timeoutCount\<close>
  after the handler are what they were.
\<close>

theorem offer_timeout_defaults:
  "(phase gs \<noteq> Offer \<longrightarrow> handleOfferTimeout now rand gs = gs)
   \<and> (phase gs = Offer \<longrightarrow>
        handleOfferTimeout now rand gs = endOfferAndContinue now rand (applyOfferDefaults gs)
        \<and> (\<forall>pid \<in> set (offerEligiblePlayerIds gs). offerResponses gs pid = None \<longrightarrow>
              offerResponses (applyOfferDefaults gs) pid = Some False
              \<and> map_option timeoutCount (getPlayer (handleOfferTimeout now rand gs) pid)
                = map_option (\<lambda>p. timeoutCount p + 1) (getPlayer gs pid))
        \<and> (\<forall>pid b. offerResponses gs pid = Some b \<longrightarrow>
              offerResponses (applyOfferDefaults gs) pid = Some b
              \<and> map_option timeoutCount (getPlayer (handleOfferTimeout now rand gs) pid)
                = map_option timeoutCount (getPlayer gs pid)))"
proof (intro conjI impI ballI allI)
  assume "phase gs \<noteq> Offer"
  then show "handleOfferTimeout now rand gs = gs" by (simp add: handleOfferTimeout_def)
next
  assume ph: "phase gs = Offer"
  then show eq: "handleOfferTimeout now rand gs = endOfferAndContinue now rand (applyOfferDefaults gs)"
    by (simp add: handleOfferTimeout_def)
  have keep: "map_option timeoutCount (getPlayer (handleOfferTimeout now rand gs) pid)
      = map_option timeoutCount (getPlayer (applyOfferDefaults gs) pid)" for pid
    unfolding eq by (rule timeoutCount_lookup_cong) (rule endOfferAndContinue_idtc)
  {
    fix pid
    assume el: "pid \<in> set (offerEligiblePlayerIds gs)" and no: "offerResponses gs pid = None"
    from fold_defaultNoDeal_silent[OF no el]
    show "offerResponses (applyOfferDefaults gs) pid = Some False"
      and "map_option timeoutCount (getPlayer (handleOfferTimeout now rand gs) pid)
                = map_option (\<lambda>p. timeoutCount p + 1) (getPlayer gs pid)"
      by (simp_all add: keep applyOfferDefaults_def)
  }
  {
    fix pid b
    assume "offerResponses gs pid = Some b"
    from fold_defaultNoDeal_answered[OF this, of "offerEligiblePlayerIds gs"]
    show "offerResponses (applyOfferDefaults gs) pid = Some b"
      and "map_option timeoutCount (getPlayer (handleOfferTimeout now rand gs) pid)
                = map_option timeoutCount (getPlayer gs pid)"
      by (simp_all add: keep applyOfferDefaults_def)
  }
qed

theorem offer_timeout_defaults_witness:
  "phase demoLobby \<noteq> Offer \<and> handleOfferTimeout 0 (1 / 2) demoLobby = demoLobby
   \<and> phase demoOneAnswer = Offer
   \<and> ''p2'' \<in> set (offerEligiblePlayerIds demoOneAnswer) \<and> offerResponses demoOneAnswer ''p2'' = None
   \<and> offerResponses (applyOfferDefaults demoOneAnswer) ''p2'' = Some False
   \<and> map_option timeoutCount (getPlayer demoOneAnswer ''p2'') = Some 0
   \<and> map_option timeoutCount (getPlayer (handleOfferTimeout 0 (1 / 2) demoOneAnswer) ''p2'') = Some 1
   \<and> offerResponses demoOneAnswer ''p1'' = Some False
   \<and> offerResponses (applyOfferDefaults demoOneAnswer) ''p1'' = Some False
   \<and> map_option timeoutCount (getPlayer (handleOfferTimeout 0 (1 / 2) demoOneAnswer) ''p1'') = Some 0"
proof -
  have a: "phase demoLobby \<noteq> Offer" by code_simp
  have b: "phase demoOneAnswer = Offer" by code_simp
  have c: "''p2'' \<in> set (offerEligiblePlayerIds demoOneAnswer)" by code_simp
  have d: "offerResponses demoOneAnswer ''p2'' = None" by code_simp
  have e: "offerResponses demoOneAnswer ''p1'' = Some False" by code_simp
  have f: "map_option timeoutCount (getPlayer demoOneAnswer ''p2'') = Some 0" by code_simp
  have g: "map_option timeoutCount (getPlayer demoOneAnswer ''p1'') = Some 0" by code_simp
  have f': "map_option (\<lambda>p. timeoutCount p + 1) (getPlayer demoOneAnswer ''p2'') = Some 1"
    using f by (cases "getPlayer demoOneAnswer ''p2''") simp_all
  note T = offer_timeout_defaults [of demoOneAnswer 0 "1 / 2"]
  from offer_timeout_defaults [of demoLobby 0 "1 / 2"] a
  have l: "handleOfferTimeout 0 (1 / 2) demoLobby = demoLobby" by blast
  from T b c d
  have s1: "offerResponses (applyOfferDefaults demoOneAnswer) ''p2'' = Some False"
    and s2: "map_option timeoutCount (getPlayer (handleOfferTimeout 0 (1 / 2) demoOneAnswer) ''p2'')
             = map_option (\<lambda>p. timeoutCount p + 1) (getPlayer demoOneAnswer ''p2'')"
    by blast+
  from T b e
  have a1: "offerResponses (applyOfferDefaults demoOneAnswer) ''p1'' = Some False"
    and a2: "map_option timeoutCount (getPlayer (handleOfferTimeout 0 (1 / 2) demoOneAnswer) ''p1'')
             = map_option timeoutCount (getPlayer demoOneAnswer ''p1'')"
    by blast+
  show ?thesis
    unfolding s2 a2 f' g using a b c d e f l s1 a1 by (intro conjI) (assumption | rule refl)+
qed

section \<open>The partition of the ladder\<close>

lemma indexOf_ge: "- 1 \<le> indexOf xs x"
  by (induction xs) (simp_all add: Let_def)

lemma indexOf_found: "(indexOf xs x > - 1) = (x \<in> set xs)"
proof (induction xs)
  case Nil
  then show ?case by simp
next
  case (Cons y ys)
  then show ?case using indexOf_ge[of ys x] by (auto simp add: Let_def)
qed

lemma indexOf_missing: "(indexOf xs x = - 1) = (x \<notin> set xs)"
  using indexOf_found[of xs x] indexOf_ge[of xs x] by linarith

lemma spliceOut_indexOf: "x \<in> set xs \<Longrightarrow> spliceOut (nat (indexOf xs x)) xs = remove1 x xs"
proof (induction xs)
  case Nil
  then show ?case by simp
next
  case (Cons y ys)
  show ?case
  proof (cases "y = x")
    case True
    then show ?thesis by (simp add: spliceOut_def)
  next
    case False
    with Cons.prems have m: "x \<in> set ys" by simp
    then have pos: "indexOf ys x \<ge> 0" using indexOf_found[of ys x] by simp
    then have "nat (indexOf ys x + 1) = Suc (nat (indexOf ys x))" by simp
    moreover have "indexOf ys x \<noteq> - 1" using pos by simp
    ultimately show ?thesis
      using False Cons.IH[OF m] by (simp add: spliceOut_def Let_def)
  qed
qed

lemma moveToEliminated_eq:
  "moveToEliminated v gs =
     (if v \<in> set (remainingValues gs)
      then gs\<lparr>remainingValues := remove1 v (remainingValues gs),
              eliminatedValues := eliminatedValues gs @ [v]\<rparr>
      else gs)"
  by (simp add: moveToEliminated_def Let_def indexOf_found spliceOut_indexOf)

lemma mset_swap_upd:
  "i < length xs \<Longrightarrow> j < length xs \<Longrightarrow> mset ((xs[i := xs ! j])[j := xs ! i]) = mset xs"
  by (simp add: mset_update add_mset_commute nth_list_update)

lemma length_shuffleLoop: "length (shuffleLoop xs i rands) = length xs"
  by (induction xs i rands rule: shuffleLoop.induct) (simp_all add: Let_def)

lemma random_index_bound:
  assumes "0 \<le> r" "r < 1"
  shows "nat \<lfloor>r * of_nat (Suc n)\<rfloor> < Suc n"
proof -
  have "r * of_nat (Suc n) < 1 * of_nat (Suc n)"
    using assms by (intro mult_strict_right_mono) (simp_all add: add_pos_nonneg)
  then have "\<lfloor>r * of_nat (Suc n)\<rfloor> < int (Suc n)" by (simp add: floor_less_iff)
  then show ?thesis by simp
qed

lemma mset_shuffleLoop:
  assumes "\<And>k. 0 \<le> rands k \<and> rands k < (1 :: rat)"
  shows "i < length xs \<Longrightarrow> mset (shuffleLoop xs i rands) = mset xs"
proof (induction i arbitrary: xs)
  case 0
  then show ?case by simp
next
  case (Suc i')
  define j where "j = nat \<lfloor>rands (Suc i') * of_nat (Suc i' + 1)\<rfloor>"
  have "j < Suc (Suc i')"
    unfolding j_def using random_index_bound[of "rands (Suc i')" "Suc i'"] assms by simp
  then have j: "j < length xs" using Suc.prems by simp
  define ys where "ys = (xs[Suc i' := xs ! j])[j := xs ! Suc i']"
  have len: "i' < length ys" using Suc.prems by (simp add: ys_def)
  have "mset ys = mset xs" unfolding ys_def using Suc.prems j by (intro mset_swap_upd)
  moreover have "shuffleLoop xs (Suc i') rands = shuffleLoop ys i' rands"
    by (simp add: Let_def ys_def j_def)
  ultimately show ?case using Suc.IH[OF len] by simp
qed

lemma mset_shuffleArray:
  assumes "\<And>k. 0 \<le> rands k \<and> rands k < (1 :: rat)"
  shows "mset (shuffleArray xs rands) = mset xs"
proof (cases xs)
  case Nil
  then show ?thesis by (simp add: shuffleArray_def)
next
  case (Cons a list)
  then show ?thesis unfolding shuffleArray_def by (intro mset_shuffleLoop assms) simp
qed

lemma zip_upt_fst: "map (\<lambda>(v, index). v) (zip xs [0..<length xs]) = xs"
proof -
  have "map fst (zip xs [0..<length xs]) = xs" by (simp add: map_fst_zip)
  moreover have "(\<lambda>(v, index). v) = (fst :: 'a \<times> nat \<Rightarrow> 'a)" by (rule ext) (simp add: case_prod_unfold)
  ultimately show ?thesis by simp
qed

lemma createInitialBoxes_values:
  "map value_b (createInitialBoxes rands) = shuffleArray BOX_VALUES rands"
  using zip_upt_fst[of "shuffleArray BOX_VALUES rands"]
  by (simp add: createInitialBoxes_def Let_def comp_def case_prod_unfold)

lemma createInitialBoxes_closed:
  "filter isOpened (createInitialBoxes rands) = []"
  by (simp add: createInitialBoxes_def Let_def filter_empty_conv case_prod_unfold)

lemma distinct_BOX_VALUES: "distinct BOX_VALUES"
  by (simp add: BOX_VALUES_def)

lemma ladderInv_cong:
  "boxes gs' = boxes gs \<Longrightarrow> remainingValues gs' = remainingValues gs \<Longrightarrow>
   eliminatedValues gs' = eliminatedValues gs \<Longrightarrow> ladderInv gs' = ladderInv gs"
  by (simp add: ladderInv_def partitionInv_def openedValues_def)

lemma createRoom_ladderInv:
  assumes "\<And>k. 0 \<le> rands k \<and> rands k < (1 :: rat)"
  shows "ladderInv (createRoom code playerId sock hostName now rands)"
  using mset_shuffleArray[OF assms, of BOX_VALUES]
  by (simp add: ladderInv_def partitionInv_def openedValues_def createRoom_def
      createInitialBoxes_values createInitialBoxes_closed)

lemma opened_updateFirst:
  "find P bs = Some box \<Longrightarrow>
   mset (map value_b (filter isOpened (updateFirst P (\<lambda>b. b\<lparr>isOpened := True, openedByPlayerId := w\<rparr>) bs)))
     = (if isOpened box then mset (map value_b (filter isOpened bs))
        else mset (map value_b (filter isOpened bs)) + {#value_b box#})"
proof (induction bs)
  case Nil
  then show ?case by simp
next
  case (Cons b bs)
  show ?case
  proof (cases "P b")
    case True
    with Cons.prems have "b = box" by simp
    then show ?thesis using True by simp
  next
    case False
    with Cons.prems have "find P bs = Some box" by simp
    from Cons.IH[OF this] show ?thesis using False by simp
  qed
qed

lemma mset_map_split:
  "mset (map f bs) = mset (map f (filter Q bs)) + mset (map f (filter (\<lambda>b. \<not> Q b) bs))"
  by (induction bs) simp_all

lemma find_in_filter:
  "find P bs = Some box \<Longrightarrow> Q box \<Longrightarrow> box \<in> set (filter Q bs)"
  by (auto simp add: find_Some_iff)


lemma find_same_number:
  "find (\<lambda>b. number b = k) bs = Some box \<Longrightarrow> find (\<lambda>b. number b = number box) bs = Some box"
proof -
  assume f: "find (\<lambda>b. number b = k) bs = Some box"
  then have "number box = k" by (auto simp add: find_Some_iff)
  with f show ?thesis by simp
qed

lemma findBox_Some:
  "findBox gs n = Some box \<Longrightarrow> find (\<lambda>b. number b = number box) (boxes gs) = Some box"
  by (cases n) (auto simp add: findBox_def dest: find_same_number)

lemma openFoundBox_ladderInv:
  assumes inv: "ladderInv gs"
    and found: "find (\<lambda>b. number b = number box) (boxes gs) = Some box"
  shows "ladderInv (openFoundBox box pid gs)"
proof -
  define v where "v = value_b box"
  define bs' where "bs' = updateFirst (\<lambda>b. number b = number box)
                       (\<lambda>b. b\<lparr>isOpened := True, openedByPlayerId := Some pid\<rparr>) (boxes gs)"
  define R where "R = mset (remainingValues gs)"
  define E where "E = mset (eliminatedValues gs)"
  define Op where "Op = mset (map value_b (filter isOpened (boxes gs)))"
  define Cl where "Cl = mset (map value_b (filter (\<lambda>b. \<not> isOpened b) (boxes gs)))"
  have B: "Op + Cl = mset BOX_VALUES"
    using inv mset_map_split[of value_b "boxes gs" isOpened] by (simp add: ladderInv_def Op_def Cl_def)
  have RE: "R + E = mset BOX_VALUES" and EO: "E = Op"
    using inv unfolding ladderInv_def partitionInv_def openedValues_def R_def E_def Op_def
    by blast+
  have vals: "mset (map value_b bs') = mset BOX_VALUES"
    using inv by (simp add: bs'_def map_updateFirst_same ladderInv_def)
  have opened: "mset (map value_b (filter isOpened bs')) = (if isOpened box then Op else Op + {#v#})"
    unfolding bs'_def Op_def v_def by (rule opened_updateFirst[OF found])
  show ?thesis
  proof (cases "isOpened box")
    case True
    have "box \<in> set (filter isOpened (boxes gs))" using found True by (rule find_in_filter)
    then have "v \<in># E" unfolding EO Op_def v_def by auto
    then have cE: "1 \<le> count E v" by (simp add: Suc_le_eq)
    have "count (R + E) v \<le> 1"
      unfolding RE using distinct_BOX_VALUES by (simp add: distinct_count_atmost_1)
    then have "count R v + count E v \<le> 1" by simp
    with cE have "count R v = 0" by linarith
    then have "v \<notin> set (remainingValues gs)" by (simp add: R_def count_eq_zero_iff)
    then have "openFoundBox box pid gs = gs\<lparr>boxes := bs'\<rparr>"
      by (simp add: openFoundBox_def moveToEliminated_eq v_def bs'_def)
    then show ?thesis
      using vals opened True RE EO
      by (simp add: ladderInv_def partitionInv_def openedValues_def R_def E_def)
  next
    case False
    have "box \<in> set (filter (\<lambda>b. \<not> isOpened b) (boxes gs))" using found False by (rule find_in_filter)
    then have "v \<in># Cl" unfolding Cl_def v_def by auto
    moreover have "R = Cl"
    proof -
      have "Op + R = Op + Cl" using B RE EO by (simp add: union_commute)
      then show ?thesis by simp
    qed
    ultimately have "v \<in># mset (remainingValues gs)" by (simp add: R_def)
    then have vR: "v \<in> set (remainingValues gs)" by simp
    then have eq: "openFoundBox box pid gs =
        gs\<lparr>boxes := bs', remainingValues := remove1 v (remainingValues gs),
            eliminatedValues := eliminatedValues gs @ [v]\<rparr>"
      by (simp add: openFoundBox_def moveToEliminated_eq v_def bs'_def)
    have "v \<in># R" using vR by (simp add: R_def)
    then have ins: "add_mset v (R - {#v#}) = R" by (rule insert_DiffM)
    have r1: "mset (remove1 v (remainingValues gs)) = R - {#v#}" by (simp add: R_def)
    have e1: "mset (eliminatedValues gs @ [v]) = add_mset v E" by (simp add: E_def)
    have "(R - {#v#}) + add_mset v E = add_mset v (R - {#v#}) + E" by simp
    also have "\<dots> = R + E" by (simp only: ins)
    finally have s1: "mset (remove1 v (remainingValues gs)) + mset (eliminatedValues gs @ [v]) = mset BOX_VALUES"
      by (simp only: r1 e1 RE)
    have s2: "mset (eliminatedValues gs @ [v]) = mset (map value_b (filter isOpened bs'))"
      using opened False EO by (simp add: E_def)
    define gs' where "gs' = gs\<lparr>boxes := bs', remainingValues := remove1 v (remainingValues gs),
                                eliminatedValues := eliminatedValues gs @ [v]\<rparr>"
    have sel: "boxes gs' = bs'" "remainingValues gs' = remove1 v (remainingValues gs)"
      "eliminatedValues gs' = eliminatedValues gs @ [v]"
      by (simp_all add: gs'_def)
    have "ladderInv gs'"
      unfolding ladderInv_def partitionInv_def openedValues_def sel
      using vals s1 s2 by blast
    then show ?thesis by (simp only: eq gs'_def)
  qed
qed

lemma ladderInv_updates [simp]:
  "ladderInv (roomCode_update f1 gs) = ladderInv gs"
  "ladderInv (phase_update f2 gs) = ladderInv gs"
  "ladderInv (players_update f3 gs) = ladderInv gs"
  "ladderInv (currentRound_update f4 gs) = ladderInv gs"
  "ladderInv (boxesOpenedThisRound_update f5 gs) = ladderInv gs"
  "ladderInv (currentOffer_update f6 gs) = ladderInv gs"
  "ladderInv (offerExpiresAt_update f7 gs) = ladderInv gs"
  "ladderInv (offerEligiblePlayerIds_update f8 gs) = ladderInv gs"
  "ladderInv (offerResponses_update f9 gs) = ladderInv gs"
  "ladderInv (turnOrder_update f10 gs) = ladderInv gs"
  "ladderInv (currentTurnIndex_update f11 gs) = ladderInv gs"
  "ladderInv (currentTurnPlayerId_update f12 gs) = ladderInv gs"
  "ladderInv (turnExpiresAt_update f13 gs) = ladderInv gs"
  "ladderInv (hostId_update f14 gs) = ladderInv gs"
  "ladderInv (password_update f15 gs) = ladderInv gs"
  "ladderInv (createdAt_update f16 gs) = ladderInv gs"
  "ladderInv (startedAt_update f17 gs) = ladderInv gs"
  "ladderInv (finishedAt_update f18 gs) = ladderInv gs"
  "ladderInv (turnTimer_update f19 gs) = ladderInv gs"
  "ladderInv (offerTimer_update f20 gs) = ladderInv gs"
  "ladderInv (pendingOffers_update f21 gs) = ladderInv gs"
  by (simp_all add: ladderInv_def partitionInv_def openedValues_def)

lemma ladderInv_updatePlayer [simp]: "ladderInv (updatePlayer pid f gs) = ladderInv gs"
  by (simp add: updatePlayer_def)

lemma ladderInv_clearTimers [simp]:
  "ladderInv (clearTurnTimer gs) = ladderInv gs"
  "ladderInv (clearOfferTimer gs) = ladderInv gs"
  by (simp_all add: clearTurnTimer_def clearOfferTimer_def)

lemma finishGame_ladderInv [simp]: "ladderInv (finishGame now gs) = ladderInv gs"
  by (simp add: finishGame_def Let_def)

lemma openFoundBox_updatePlayer_ladderInv:
  "ladderInv gs \<Longrightarrow> findBox gs k = Some box \<Longrightarrow>
   ladderInv (openFoundBox box pid (updatePlayer pid' f gs))"
  by (rule openFoundBox_ladderInv) (simp_all add: findBox_Some updatePlayer_def)

lemma boxes_updatePlayer [simp]: "boxes (updatePlayer pid f gs) = boxes gs"
  by (simp add: updatePlayer_def)

lemma findBox_updatePlayer [simp]: "findBox (updatePlayer pid f gs) n = findBox gs n"
  by (simp add: findBox_def split: option.splits)

lemma finishLastPlayer_ladderInv: "ladderInv gs \<Longrightarrow> ladderInv (finishLastPlayer now pl gs)"
  by (simp add: finishLastPlayer_def Let_def openFoundBox_updatePlayer_ladderInv split: option.splits)

lemma triggerBankerOffer_ladderInv: "ladderInv gs \<Longrightarrow> ladderInv (triggerBankerOffer now rand gs)"
  by (simp add: triggerBankerOffer_def Let_def finishLastPlayer_ladderInv split: option.splits)

lemma setCurrentTurn_ladderInv: "ladderInv gs \<Longrightarrow> ladderInv (setCurrentTurn now rand gs)"
  by (simp add: setCurrentTurn_def Let_def triggerBankerOffer_ladderInv)

lemma handleTurnTimeout_ladderInv: "ladderInv gs \<Longrightarrow> ladderInv (handleTurnTimeout now rand pid gs)"
  by (simp add: handleTurnTimeout_def Let_def triggerBankerOffer_ladderInv setCurrentTurn_ladderInv)

lemma startNewRound_ladderInv: "ladderInv gs \<Longrightarrow> ladderInv (startNewRound now rand gs)"
  by (simp add: startNewRound_def Let_def finishLastPlayer_ladderInv setCurrentTurn_ladderInv
      split: option.splits)

lemma endOfferAndContinue_ladderInv: "ladderInv gs \<Longrightarrow> ladderInv (endOfferAndContinue now rand gs)"
  by (simp add: endOfferAndContinue_def Let_def finishLastPlayer_ladderInv startNewRound_ladderInv
      split: option.splits)

lemma defaultNoDeal_ladderInv [simp]: "ladderInv (defaultNoDeal q gs) = ladderInv gs"
  by (simp add: defaultNoDeal_def)

lemma applyOfferDefaults_ladderInv [simp]: "ladderInv (applyOfferDefaults gs) = ladderInv gs"
proof -
  have "ladderInv (fold defaultNoDeal qs gs) = ladderInv gs" for qs
    by (induction qs arbitrary: gs) simp_all
  then show ?thesis by (simp add: applyOfferDefaults_def)
qed

lemma handleOfferTimeout_ladderInv: "ladderInv gs \<Longrightarrow> ladderInv (handleOfferTimeout now rand gs)"
  by (simp add: handleOfferTimeout_def endOfferAndContinue_ladderInv)

lemma joinRoom_ladderInv: "ladderInv gs \<Longrightarrow> ladderInv (onJoinRoom pid sock nm pw sp gs)"
  by (simp add: onJoinRoom_def joinRoom_def Let_def split: sum.splits)

lemma selectBox_ladderInv: "ladderInv gs \<Longrightarrow> ladderInv (selectBox pid n gs)"
  by (simp add: selectBox_def split: option.splits)

lemma playerReady_ladderInv: "ladderInv gs \<Longrightarrow> ladderInv (playerReady pid gs)"
  by (simp add: playerReady_def split: option.splits)

lemma startGame_ladderInv: "ladderInv gs \<Longrightarrow> ladderInv (startGame pid sr now rand gs)"
  by (simp add: startGame_def Let_def setCurrentTurn_ladderInv)

lemma onSetRoomPassword_ladderInv: "ladderInv gs \<Longrightarrow> ladderInv (onSetRoomPassword pid pw gs)"
  by (simp add: onSetRoomPassword_def setRoomPassword_def Let_def)

lemma openFoundBox_clearTurnTimer_ladderInv:
  "ladderInv gs \<Longrightarrow> find (\<lambda>b. number b = n) (boxes gs) = Some box \<Longrightarrow>
   ladderInv (openFoundBox box pid (clearTurnTimer gs))"
  by (rule openFoundBox_ladderInv) (simp_all add: clearTurnTimer_def find_same_number)

lemma openBox_ladderInv: "ladderInv gs \<Longrightarrow> ladderInv (openBox pid n now rand gs)"
  by (simp add: openBox_def Let_def setCurrentTurn_ladderInv openFoundBox_clearTurnTimer_ladderInv
      split: option.splits)

lemma openBoxes_ladderInv: "ladderInv gs \<Longrightarrow> ladderInv (openBoxes pid ns now rand gs)"
  by (simp add: openBoxes_def openBox_ladderInv split: list.splits)

lemma acceptDeal_ladderInv: "ladderInv gs \<Longrightarrow> ladderInv (acceptDeal pid pl offer gs)"
  by (simp add: acceptDeal_def Let_def openFoundBox_updatePlayer_ladderInv split: option.splits)

lemma recordDealResponse_ladderInv: "ladderInv gs \<Longrightarrow> ladderInv (recordDealResponse pid pl acc gs)"
  by (simp add: recordDealResponse_def Let_def acceptDeal_ladderInv split: option.splits)

lemma dealResponse_ladderInv: "ladderInv gs \<Longrightarrow> ladderInv (dealResponse pid acc now rand gs)"
  by (simp add: dealResponse_def Let_def recordDealResponse_ladderInv endOfferAndContinue_ladderInv
      split: option.splits)

lemma handle_ladderInv: "ladderInv gs \<Longrightarrow> ladderInv (handle now rand e gs)"
  by (cases e)
     (simp_all add: joinRoom_ladderInv selectBox_ladderInv playerReady_ladderInv
       startGame_ladderInv onSetRoomPassword_ladderInv openBox_ladderInv openBoxes_ladderInv
       dealResponse_ladderInv handleTurnTimeout_ladderInv handleOfferTimeout_ladderInv
       triggerBankerOffer_ladderInv handleDisconnect_def reconnectPlayer_def
       split: option.splits)

lemma reachable_ladderInv: "reachable gs \<Longrightarrow> ladderInv gs"
  by (induction rule: reachable.induct) (simp_all add: createRoom_ladderInv handle_ladderInv)

subsection \<open>The example rooms are reachable\<close>

lemma reachable_run:
  "reachable gs \<Longrightarrow> admissibleRun es gs \<Longrightarrow> reachable (run es gs)"
proof (induction es arbitrary: gs)
  case Nil
  then show ?case by (simp add: run_def)
next
  case (Cons e es)
  have "reachable (handle 0 (1 / 2) e gs)"
    using Cons.prems by (intro reach_step) simp_all
  from Cons.IH[OF this] Cons.prems(2) show ?case by (simp add: run_def)
qed

lemma reachable_demoRoom: "reachable demoRoom"
  unfolding demoRoom_def by (rule reach_create) (simp add: demoRands_def)

lemma reachable_demoLobby: "reachable demoLobby"
proof -
  have "admissibleRun demoLobbyEvents demoRoom" by code_simp
  with reachable_demoRoom show ?thesis unfolding demoLobby_def by (rule reachable_run)
qed

lemma reachable_demoRoundDone: "reachable demoRoundDone"
proof -
  have "admissibleRun demoRoundEvents demoLobby" by code_simp
  with reachable_demoLobby show ?thesis unfolding demoRoundDone_def by (rule reachable_run)
qed

lemma reachable_demoOffer: "reachable demoOffer"
  unfolding demoOffer_def by (rule reachable_run[OF reachable_demoRoundDone]) simp

lemma reachable_demoOneAnswer: "reachable demoOneAnswer"
  unfolding demoOneAnswer_def by (rule reachable_run[OF reachable_demoOffer]) simp

lemma reachable_demoTwoDealt: "reachable demoTwoDealt"
  unfolding demoTwoDealt_def by (rule reachable_run[OF reachable_demoOffer]) simp

subsection \<open>Every reachable room keeps the partition\<close>

text \<open>
  Claim C1. In every reachable room, in every phase, the box values are the ladder, the
  remaining and the eliminated values together are the ladder, and the eliminated values
  are the values of the opened boxes, all as multisets. Every handler run keeps this: the
  room after any event (open-box, deal response, timer callbacks and the others) and
  the room after the last-standing reveal satisfy the partition again.
\<close>

theorem partition_invariant:
  assumes "reachable gs"
  shows "mset (map value_b (boxes gs)) = mset BOX_VALUES
       \<and> partitionInv gs
       \<and> partitionInv (handle now rand e gs)
       \<and> partitionInv (finishLastPlayer now pl gs)"
proof -
  have inv: "ladderInv gs" using assms by (rule reachable_ladderInv)
  have "ladderInv (handle now rand e gs)" using inv by (rule handle_ladderInv)
  moreover have "ladderInv (finishLastPlayer now pl gs)" using inv by (rule finishLastPlayer_ladderInv)
  ultimately show ?thesis using inv by (simp add: ladderInv_def)
qed

theorem partition_invariant_witness:
  "reachable demoOffer
   \<and> remainingValues demoOffer
       = [1 / 100, 1, 500, 750, 1000, 3000, 5000, 10000, 15000, 20000, 35000, 50000, 75000,
          100000, 250000]
   \<and> eliminatedValues demoOffer = [5, 10, 50, 100, 250]
   \<and> partitionInv demoOffer
   \<and> eliminatedValues (handle 0 (1 / 2) (DealResponse ''p2'' True) demoOffer) = [5, 10, 50, 100, 250, 1 / 100]
   \<and> partitionInv (handle 0 (1 / 2) (DealResponse ''p2'' True) demoOffer)"
proof -
  have r: "remainingValues demoOffer
       = [1 / 100, 1, 500, 750, 1000, 3000, 5000, 10000, 15000, 20000, 35000, 50000, 75000,
          100000, 250000]"
    by code_simp
  have e: "eliminatedValues demoOffer = [5, 10, 50, 100, 250]"
    by code_simp
  have e': "eliminatedValues (handle 0 (1 / 2) (DealResponse ''p2'' True) demoOffer) = [5, 10, 50, 100, 250, 1 / 100]"
    by code_simp
  from partition_invariant[OF reachable_demoOffer, of 0 "1 / 2" "DealResponse ''p2'' True"]
  show ?thesis using reachable_demoOffer r e e' by blast
qed

section \<open>Well-formed rooms\<close>

lemma wellFormed_updates [simp]:
  "wellFormed (roomCode_update f1 gs) = wellFormed gs"
  "wellFormed (currentRound_update f4 gs) = wellFormed gs"
  "wellFormed (boxesOpenedThisRound_update f5 gs) = wellFormed gs"
  "wellFormed (remainingValues_update f5a gs) = wellFormed gs"
  "wellFormed (eliminatedValues_update f5b gs) = wellFormed gs"
  "wellFormed (currentOffer_update f6 gs) = wellFormed gs"
  "wellFormed (offerExpiresAt_update f7 gs) = wellFormed gs"
  "wellFormed (offerEligiblePlayerIds_update f8 gs) = wellFormed gs"
  "wellFormed (offerResponses_update f9 gs) = wellFormed gs"
  "wellFormed (currentTurnIndex_update f11 gs) = wellFormed gs"
  "wellFormed (currentTurnPlayerId_update f12 gs) = wellFormed gs"
  "wellFormed (turnExpiresAt_update f13 gs) = wellFormed gs"
  "wellFormed (hostId_update f14 gs) = wellFormed gs"
  "wellFormed (password_update f15 gs) = wellFormed gs"
  "wellFormed (createdAt_update f16 gs) = wellFormed gs"
  "wellFormed (startedAt_update f17 gs) = wellFormed gs"
  "wellFormed (finishedAt_update f18 gs) = wellFormed gs"
  "wellFormed (turnTimer_update f19 gs) = wellFormed gs"
  "wellFormed (offerTimer_update f20 gs) = wellFormed gs"
  by (simp_all add: wellFormed_def)

lemma wellFormed_phase:
  "wellFormed gs \<Longrightarrow> \<not> inLobby ph \<Longrightarrow> wellFormed (gs\<lparr>phase := ph\<rparr>)"
  by (simp add: wellFormed_def wfCore_def)

lemma wellFormed_pending:
  "wellFormed gs \<Longrightarrow> \<not> inLobby (phase gs) \<Longrightarrow> wellFormed (gs\<lparr>pendingOffers := k\<rparr>)"
  by (simp add: wellFormed_def wfCore_def)

lemma wellFormed_players_same:
  "map playerView ps = map playerView (players gs) \<Longrightarrow> wellFormed (gs\<lparr>players := ps\<rparr>) = wellFormed gs"
  by (simp add: wellFormed_def)

lemma wellFormed_updatePlayer_same:
  "(\<And>p. playerView (f p) = playerView p) \<Longrightarrow> wellFormed (updatePlayer pid f gs) = wellFormed gs"
  by (simp add: updatePlayer_def wellFormed_players_same map_updateFirst_same)

lemma wellFormed_clearTimers [simp]:
  "wellFormed (clearTurnTimer gs) = wellFormed gs"
  "wellFormed (clearOfferTimer gs) = wellFormed gs"
  by (simp_all add: clearTurnTimer_def clearOfferTimer_def)

lemma finishGame_views:
  "map playerView (players (finishGame now gs)) = map playerView (players gs)"
  "boxes (finishGame now gs) = boxes gs"
  "turnOrder (finishGame now gs) = turnOrder gs"
  "pendingOffers (finishGame now gs) = pendingOffers gs"
  by (simp_all add: finishGame_def Let_def clearOfferTimer_def clearTurnTimer_def playerView_def)

lemma finishGame_wellFormed: "wellFormed gs \<Longrightarrow> wellFormed (finishGame now gs)"
  by (simp add: wellFormed_def wfCore_def finishGame_views finishGame_phase inLobby_def)


lemma set_updateFirst:
  "x \<in> set (updateFirst P f xs) \<Longrightarrow> x \<in> set xs \<or> (\<exists>y \<in> set xs. P y \<and> x = f y)"
  by (induction xs) (auto split: if_splits)

lemma map_updateFirst:
  "(\<And>x. P x = P' (g x)) \<Longrightarrow> (\<And>x. g (f x) = f' (g x)) \<Longrightarrow>
   map g (updateFirst P f xs) = updateFirst P' f' (map g xs)"
  by (induction xs) simp_all

lemma updateFirst_none: "find P xs = None \<Longrightarrow> updateFirst P f xs = xs"
  by (induction xs) (auto split: if_splits)

lemma updateFirst_fixed: "find P xs = Some x \<Longrightarrow> f x = x \<Longrightarrow> updateFirst P f xs = xs"
  by (induction xs) (auto split: if_splits)

lemma distinct_find_unique:
  "distinct (map k xs) \<Longrightarrow> find (\<lambda>x. k x = a) xs = Some y \<Longrightarrow> q \<in> set xs \<Longrightarrow> k q = a \<Longrightarrow> q = y"
proof (induction xs)
  case Nil
  then show ?case by simp
next
  case (Cons x xs)
  show ?case
  proof (cases "k x = a")
    case True
    with Cons.prems have y: "y = x" by simp
    show ?thesis
    proof (cases "q = x")
      case True
      with y show ?thesis by simp
    next
      case False
      with Cons.prems have "q \<in> set xs" by simp
      then have "k q \<in> set (map k xs)" by simp
      with Cons.prems(1,4) True show ?thesis by simp
    qed
  next
    case False
    with Cons.prems show ?thesis using Cons.IH by auto
  qed
qed

lemma find_Some_mem: "find P xs = Some x \<Longrightarrow> x \<in> set xs \<and> P x"
  by (auto simp add: find_Some_iff)

lemma openView_numbers: "map bv_number (openView n bvs) = map bv_number bvs"
  by (simp add: openView_def map_updateFirst_same)

lemma openView_length: "length (openView n bvs) = length bvs"
  using openView_numbers[of n bvs] by (metis length_map)

lemma openView_other:
  "b \<in> set (openView n bvs) \<Longrightarrow> bv_number b \<noteq> n \<Longrightarrow> b \<in> set bvs"
  unfolding openView_def by (drule set_updateFirst) auto

lemma dealView_ids: "map pv_id (dealView pid pvs) = map pv_id pvs"
  by (simp add: dealView_def map_updateFirst_same)

lemma dealView_mem:
  "v \<in> set (dealView pid pvs) \<Longrightarrow>
     v \<in> set pvs \<or> (\<exists>y \<in> set pvs. pv_id y = pid \<and> v = y\<lparr>pv_hasDealt := True\<rparr>)"
  unfolding dealView_def by (rule set_updateFirst)

lemma dealView_origin:
  "v \<in> set (dealView pid pvs) \<Longrightarrow>
     \<exists>y \<in> set pvs. pv_id y = pv_id v \<and> pv_boxNumber y = pv_boxNumber v \<and> pv_role y = pv_role v"
  by (drule dealView_mem) auto

lemma dealView_active:
  assumes d: "distinct (map pv_id pvs)"
    and f: "find (\<lambda>v. pv_id v = pid) pvs = Some v0"
    and v: "v \<in> set (dealView pid pvs)" and nd: "\<not> pv_hasDealt v"
  shows "v \<in> set pvs \<and> pv_id v \<noteq> pid"
proof -
  from dealView_mem[OF v] nd have mem: "v \<in> set pvs" by auto
  have "pv_id v \<noteq> pid"
  proof
    assume eq: "pv_id v = pid"
    have fnd: "find (\<lambda>v. pv_id v = pid) (dealView pid pvs) = Some (v0\<lparr>pv_hasDealt := True\<rparr>)"
      unfolding dealView_def using f by (simp add: find_updateFirst_keep)
    have dst: "distinct (map pv_id (dealView pid pvs))" using d by (simp add: dealView_ids)
    have "v = v0\<lparr>pv_hasDealt := True\<rparr>" by (rule distinct_find_unique[OF dst fnd v eq])
    with nd show False by simp
  qed
  with mem show ?thesis by simp
qed


lemma wfCore_deal:
  assumes wf: "wfCore ph pending order pvs bvs"
    and f: "find (\<lambda>v. pv_id v = pid) pvs = Some v0"
    and ph': "\<not> inLobby ph'"
    and ord: "distinct order'"
    and bvs': "bvs' = (case pv_boxNumber v0 of None \<Rightarrow> bvs | Some n \<Rightarrow> openView n bvs)"
  shows "wfCore ph' pending' order' (dealView pid pvs) bvs'"
proof -
  have d: "distinct (map pv_id pvs)" using wf by (simp add: wfCore_def)
  have v0: "v0 \<in> set pvs" "pv_id v0 = pid" using find_Some_mem[OF f] by simp_all
  have nums: "map bv_number bvs' = map bv_number bvs"
    unfolding bvs' by (simp add: openView_numbers split: option.splits)
  then have len: "length bvs' = length bvs" by (metis length_map)
  have w1: "distinct (map pv_id (dealView pid pvs))" using d by (simp add: dealView_ids)
  have w2: "length bvs' = 20 \<and> set (map bv_number bvs') = {1..20}"
    using wf by (simp add: wfCore_def nums len)
  have w3: "\<forall>v \<in> set (dealView pid pvs). \<forall>n. pv_boxNumber v = Some n \<longrightarrow> 1 \<le> n \<and> n \<le> 20"
  proof (intro ballI allI impI)
    fix v n assume "v \<in> set (dealView pid pvs)" "pv_boxNumber v = Some n"
    then obtain y where "y \<in> set pvs" "pv_boxNumber y = Some n" using dealView_origin by metis
    then show "1 \<le> n \<and> n \<le> 20" using wf by (simp add: wfCore_def)
  qed
  have w4: "\<forall>v \<in> set (dealView pid pvs). \<forall>w \<in> set (dealView pid pvs). \<forall>n.
            pv_boxNumber v = Some n \<and> pv_boxNumber w = Some n \<longrightarrow> pv_id v = pv_id w"
  proof (intro ballI allI impI)
    fix v w n
    assume v: "v \<in> set (dealView pid pvs)" and w: "w \<in> set (dealView pid pvs)"
      and b: "pv_boxNumber v = Some n \<and> pv_boxNumber w = Some n"
    obtain y where y: "y \<in> set pvs" "pv_id y = pv_id v" "pv_boxNumber y = pv_boxNumber v"
      using dealView_origin[OF v] by auto
    obtain z where z: "z \<in> set pvs" "pv_id z = pv_id w" "pv_boxNumber z = pv_boxNumber w"
      using dealView_origin[OF w] by auto
    have "pv_id y = pv_id z" using wf y z b unfolding wfCore_def by metis
    then show "pv_id v = pv_id w" using y z by simp
  qed
  have w6: "\<forall>v \<in> set (dealView pid pvs). pv_role v = RolePlayer \<and> \<not> pv_hasDealt v \<longrightarrow>
            (\<forall>b \<in> set bvs'. pv_boxNumber v = Some (bv_number b) \<longrightarrow> \<not> bv_isOpened b)"
  proof (intro ballI allI impI)
    fix v b
    assume v: "v \<in> set (dealView pid pvs)" and act: "pv_role v = RolePlayer \<and> \<not> pv_hasDealt v"
      and b: "b \<in> set bvs'" and own: "pv_boxNumber v = Some (bv_number b)"
    from dealView_active[OF d f v] act have mem: "v \<in> set pvs" and other: "pv_id v \<noteq> pid" by simp_all
    have old: "b \<in> set bvs"
    proof (cases "pv_boxNumber v0")
      case None
      then show ?thesis using b bvs' by simp
    next
      case (Some n)
      have "bv_number b \<noteq> n"
      proof
        assume "bv_number b = n"
        then have "pv_boxNumber v = Some n \<and> pv_boxNumber v0 = Some n" using own Some by simp
        then have "pv_id v = pv_id v0" using wf mem v0(1) unfolding wfCore_def by metis
        with other v0(2) show False by simp
      qed
      then show ?thesis using b bvs' Some by (auto dest: openView_other)
    qed
    show "\<not> bv_isOpened b" using wf mem act old own unfolding wfCore_def by metis
  qed
  show ?thesis
    unfolding wfCore_def using w1 w2 w3 w4 w6 ph' ord by blast
qed

lemma wfCore_open:
  assumes wf: "wfCore ph pending order pvs bvs"
    and free: "\<forall>v \<in> set pvs. pv_boxNumber v \<noteq> Some n"
    and ph': "\<not> inLobby ph'"
  shows "wfCore ph' pending' order pvs (openView n bvs)"
proof -
  have w2: "length (openView n bvs) = 20 \<and> set (map bv_number (openView n bvs)) = {1..20}"
    using wf by (simp add: wfCore_def openView_numbers openView_length)
  have w6: "\<forall>v \<in> set pvs. pv_role v = RolePlayer \<and> \<not> pv_hasDealt v \<longrightarrow>
            (\<forall>b \<in> set (openView n bvs). pv_boxNumber v = Some (bv_number b) \<longrightarrow> \<not> bv_isOpened b)"
  proof (intro ballI allI impI)
    fix v b
    assume v: "v \<in> set pvs" and act: "pv_role v = RolePlayer \<and> \<not> pv_hasDealt v"
      and b: "b \<in> set (openView n bvs)" and own: "pv_boxNumber v = Some (bv_number b)"
    have "bv_number b \<noteq> n" using free v own by auto
    with b have "b \<in> set bvs" by (rule openView_other)
    then show "\<not> bv_isOpened b" using wf v act own unfolding wfCore_def by metis
  qed
  have rest: "distinct (map pv_id pvs)"
    "\<forall>v \<in> set pvs. \<forall>n. pv_boxNumber v = Some n \<longrightarrow> 1 \<le> n \<and> n \<le> 20"
    "\<forall>v \<in> set pvs. \<forall>w \<in> set pvs. \<forall>n.
            pv_boxNumber v = Some n \<and> pv_boxNumber w = Some n \<longrightarrow> pv_id v = pv_id w"
    "distinct order"
    using wf unfolding wfCore_def by blast+
  show ?thesis
    unfolding wfCore_def using w2 w6 rest ph' by blast
qed



lemma wfCore_select:
  assumes wf: "wfCore ph pending order pvs bvs"
    and lobby: "inLobby ph"
    and range: "1 \<le> n \<and> n \<le> 20"
    and guard: "\<forall>v \<in> set pvs. pv_boxNumber v = Some n \<longrightarrow> pv_id v = pid"
  shows "wfCore ph pending order
           (updateFirst (\<lambda>v. pv_id v = pid) (\<lambda>v. v\<lparr>pv_boxNumber := Some n\<rparr>) pvs) bvs"
proof -
  define pvs' where "pvs' = updateFirst (\<lambda>v. pv_id v = pid) (\<lambda>v. v\<lparr>pv_boxNumber := Some n\<rparr>) pvs"
  have mem: "v \<in> set pvs' \<Longrightarrow> v \<in> set pvs \<or> (pv_id v = pid \<and> pv_boxNumber v = Some n)" for v
    unfolding pvs'_def by (drule set_updateFirst) auto
  have w1: "distinct (map pv_id pvs')"
    using wf by (simp add: wfCore_def pvs'_def map_updateFirst_same)
  have w3: "\<forall>v \<in> set pvs'. \<forall>m. pv_boxNumber v = Some m \<longrightarrow> 1 \<le> m \<and> m \<le> 20"
  proof (intro ballI allI impI)
    fix v m assume v: "v \<in> set pvs'" and b: "pv_boxNumber v = Some m"
    from mem[OF v] show "1 \<le> m \<and> m \<le> 20"
    proof
      assume "v \<in> set pvs"
      then show ?thesis using wf b by (simp add: wfCore_def)
    next
      assume "pv_id v = pid \<and> pv_boxNumber v = Some n"
      then show ?thesis using b range by simp
    qed
  qed
  have key: "v \<in> set pvs' \<Longrightarrow> pv_boxNumber v = Some n \<Longrightarrow> pv_id v = pid" for v
    using mem[of v] guard by auto
  have w4: "\<forall>v \<in> set pvs'. \<forall>w \<in> set pvs'. \<forall>m.
            pv_boxNumber v = Some m \<and> pv_boxNumber w = Some m \<longrightarrow> pv_id v = pv_id w"
  proof (intro ballI allI impI)
    fix v w m
    assume v: "v \<in> set pvs'" and w: "w \<in> set pvs'"
      and b: "pv_boxNumber v = Some m \<and> pv_boxNumber w = Some m"
    show "pv_id v = pv_id w"
    proof (cases "m = n")
      case True
      then show ?thesis using key[OF v] key[OF w] b by simp
    next
      case False
      then have "v \<in> set pvs" "w \<in> set pvs" using mem[OF v] mem[OF w] b by auto
      then show ?thesis using wf b unfolding wfCore_def by metis
    qed
  qed
  have closed: "\<forall>b \<in> set bvs. \<not> bv_isOpened b" and pend: "pending = 0"
    using wf lobby by (simp_all add: wfCore_def)
  have rest: "length bvs = 20 \<and> set (map bv_number bvs) = {1..20}" "distinct order"
    using wf unfolding wfCore_def by blast+
  show ?thesis
    unfolding wfCore_def pvs'_def[symmetric] using w1 w3 w4 closed pend rest by blast
qed


lemma wfCore_join:
  assumes wf: "wfCore ph pending order pvs bvs"
    and fresh: "pv_id v \<notin> set (map pv_id pvs)"
    and nobox: "pv_boxNumber v = None"
  shows "wfCore ph pending order (pvs @ [v]) bvs"
proof -
  have w1: "distinct (map pv_id (pvs @ [v]))" using wf fresh by (simp add: wfCore_def)
  have mem: "w \<in> set (pvs @ [v]) \<Longrightarrow> pv_boxNumber w \<noteq> None \<Longrightarrow> w \<in> set pvs" for w
    using nobox by auto
  have w3: "\<forall>w \<in> set (pvs @ [v]). \<forall>n. pv_boxNumber w = Some n \<longrightarrow> 1 \<le> n \<and> n \<le> 20"
  proof (intro ballI allI impI)
    fix w n assume "w \<in> set (pvs @ [v])" "pv_boxNumber w = Some n"
    then have "w \<in> set pvs" "pv_boxNumber w = Some n" using mem[of w] by simp_all
    then show "1 \<le> n \<and> n \<le> 20" using wf by (simp add: wfCore_def)
  qed
  have w4: "\<forall>w \<in> set (pvs @ [v]). \<forall>u \<in> set (pvs @ [v]). \<forall>n.
            pv_boxNumber w = Some n \<and> pv_boxNumber u = Some n \<longrightarrow> pv_id w = pv_id u"
  proof (intro ballI allI impI)
    fix w u n
    assume "w \<in> set (pvs @ [v])" "u \<in> set (pvs @ [v])"
      and b: "pv_boxNumber w = Some n \<and> pv_boxNumber u = Some n"
    then have "w \<in> set pvs" "u \<in> set pvs" using mem[of w] mem[of u] by simp_all
    then show "pv_id w = pv_id u" using wf b unfolding wfCore_def by metis
  qed
  have w6: "\<forall>w \<in> set (pvs @ [v]). pv_role w = RolePlayer \<and> \<not> pv_hasDealt w \<longrightarrow>
            (\<forall>b \<in> set bvs. pv_boxNumber w = Some (bv_number b) \<longrightarrow> \<not> bv_isOpened b)"
  proof (intro ballI allI impI)
    fix w b
    assume "w \<in> set (pvs @ [v])" and act: "pv_role w = RolePlayer \<and> \<not> pv_hasDealt w"
      and b: "b \<in> set bvs" and own: "pv_boxNumber w = Some (bv_number b)"
    then have "w \<in> set pvs" using mem[of w] by simp
    then show "\<not> bv_isOpened b" using wf act b own unfolding wfCore_def by metis
  qed
  have rest: "length bvs = 20 \<and> set (map bv_number bvs) = {1..20}" "distinct order"
    "inLobby ph \<longrightarrow> (\<forall>b \<in> set bvs. \<not> bv_isOpened b) \<and> pending = 0"
    using wf unfolding wfCore_def by blast+
  show ?thesis
    unfolding wfCore_def using w1 w3 w4 w6 rest by blast
qed

lemma find_map_view: "find (\<lambda>v. P v) (map g xs) = map_option g (find (\<lambda>x. P (g x)) xs)"
  by (induction xs) simp_all

lemma find_distinct_self:
  "distinct (map k xs) \<Longrightarrow> x \<in> set xs \<Longrightarrow> find (\<lambda>y. k y = k x) xs = Some x"
  by (induction xs) (auto simp add: image_iff)

lemma openFoundBox_frame:
  "players (openFoundBox box pid gs) = players gs"
  "phase (openFoundBox box pid gs) = phase gs"
  "pendingOffers (openFoundBox box pid gs) = pendingOffers gs"
  "turnOrder (openFoundBox box pid gs) = turnOrder gs"
  "currentRound (openFoundBox box pid gs) = currentRound gs"
  "currentTurnIndex (openFoundBox box pid gs) = currentTurnIndex gs"
  by (simp_all add: openFoundBox_def moveToEliminated_def Let_def)

lemma openFoundBox_boxView:
  "map boxView (boxes (openFoundBox box pid gs)) = openView (number box) (map boxView (boxes gs))"
proof -
  have "boxes (openFoundBox box pid gs) =
        updateFirst (\<lambda>b. number b = number box)
          (\<lambda>b. b\<lparr>isOpened := True, openedByPlayerId := Some pid\<rparr>) (boxes gs)"
    by (simp add: openFoundBox_def moveToEliminated_def Let_def)
  then show ?thesis
    unfolding openView_def
    by (simp add: map_updateFirst[where P' = "\<lambda>b. bv_number b = number box"
          and f' = "\<lambda>b. b\<lparr>bv_isOpened := True\<rparr>"] boxView_def)
qed

lemma openView_none:
  "find (\<lambda>b. number b = n) bs = None \<Longrightarrow> openView n (map boxView bs) = map boxView bs"
  unfolding openView_def
  by (rule updateFirst_none) (simp add: find_map_view boxView_def)

lemma openView_opened:
  "find (\<lambda>b. number b = n) bs = Some box \<Longrightarrow> isOpened box \<Longrightarrow>
   openView n (map boxView bs) = map boxView bs"
  unfolding openView_def
  by (rule updateFirst_fixed[where x = "boxView box"]) (simp_all add: find_map_view boxView_def)

lemma find_number: "find (\<lambda>b. number b = n) bs = Some box \<Longrightarrow> number box = n"
  by (auto simp add: find_Some_iff)

lemma reveal_boxView:
  "map boxView (boxes (case findBox gs bn of None \<Rightarrow> gs | Some box \<Rightarrow> openFoundBox box pid gs))
     = (case bn of None \<Rightarrow> map boxView (boxes gs) | Some n \<Rightarrow> openView n (map boxView (boxes gs)))"
proof (cases bn)
  case None
  then show ?thesis by (simp add: findBox_def)
next
  case (Some n)
  show ?thesis
  proof (cases "find (\<lambda>b. number b = n) (boxes gs)")
    case None
    then show ?thesis using Some by (simp add: findBox_def openView_none)
  next
    case (Some box)
    then have "number box = n" by (rule find_number)
    then show ?thesis using Some \<open>bn = Some n\<close> by (simp add: findBox_def openFoundBox_boxView)
  qed
qed

lemma reveal_closed_boxView:
  "map boxView (boxes (case findBox gs bn of None \<Rightarrow> gs
                       | Some box \<Rightarrow> if \<not> isOpened box then openFoundBox box pid gs else gs))
     = (case bn of None \<Rightarrow> map boxView (boxes gs) | Some n \<Rightarrow> openView n (map boxView (boxes gs)))"
proof (cases bn)
  case None
  then show ?thesis by (simp add: findBox_def)
next
  case (Some n)
  show ?thesis
  proof (cases "find (\<lambda>b. number b = n) (boxes gs)")
    case None
    then show ?thesis using Some by (simp add: findBox_def openView_none)
  next
    case (Some box)
    then have "number box = n" by (rule find_number)
    then show ?thesis
      using Some \<open>bn = Some n\<close> openView_opened[OF Some]
      by (simp add: findBox_def openFoundBox_boxView)
  qed
qed

lemma getPlayer_view:
  "find (\<lambda>v. pv_id v = pid) (map playerView (players gs)) = map_option playerView (getPlayer gs pid)"
  by (simp add: getPlayer_def find_map_view playerView_def)

lemma updatePlayer_dealView:
  assumes "\<And>p. playerView (f p) = (playerView p)\<lparr>pv_hasDealt := True\<rparr>"
  shows "map playerView (players (updatePlayer pid f gs)) = dealView pid (map playerView (players gs))"
proof -
  have "map playerView (updateFirst (\<lambda>p. id_p p = pid) f (players gs))
        = updateFirst (\<lambda>v. pv_id v = pid) (\<lambda>v. v\<lparr>pv_hasDealt := True\<rparr>) (map playerView (players gs))"
    by (rule map_updateFirst) (simp add: playerView_def, rule assms)
  then show ?thesis by (simp add: dealView_def updatePlayer_def)
qed

lemma updatePlayer_frame:
  "boxes (updatePlayer pid f gs) = boxes gs"
  "phase (updatePlayer pid f gs) = phase gs"
  "pendingOffers (updatePlayer pid f gs) = pendingOffers gs"
  "turnOrder (updatePlayer pid f gs) = turnOrder gs"
  by (simp_all add: updatePlayer_def)

lemma reveal_frame:
  "players (case findBox gs bn of None \<Rightarrow> gs | Some box \<Rightarrow> openFoundBox box pid gs) = players gs"
  "phase (case findBox gs bn of None \<Rightarrow> gs | Some box \<Rightarrow> openFoundBox box pid gs) = phase gs"
  "pendingOffers (case findBox gs bn of None \<Rightarrow> gs | Some box \<Rightarrow> openFoundBox box pid gs) = pendingOffers gs"
  "turnOrder (case findBox gs bn of None \<Rightarrow> gs | Some box \<Rightarrow> openFoundBox box pid gs) = turnOrder gs"
  by (simp_all add: openFoundBox_frame split: option.splits)

lemma reveal_closed_frame:
  "players (case findBox gs bn of None \<Rightarrow> gs
            | Some box \<Rightarrow> if \<not> isOpened box then openFoundBox box pid gs else gs) = players gs"
  "phase (case findBox gs bn of None \<Rightarrow> gs
            | Some box \<Rightarrow> if \<not> isOpened box then openFoundBox box pid gs else gs) = phase gs"
  "pendingOffers (case findBox gs bn of None \<Rightarrow> gs
            | Some box \<Rightarrow> if \<not> isOpened box then openFoundBox box pid gs else gs) = pendingOffers gs"
  "turnOrder (case findBox gs bn of None \<Rightarrow> gs
            | Some box \<Rightarrow> if \<not> isOpened box then openFoundBox box pid gs else gs) = turnOrder gs"
  "currentTurnIndex (case findBox gs bn of None \<Rightarrow> gs
            | Some box \<Rightarrow> if \<not> isOpened box then openFoundBox box pid gs else gs) = currentTurnIndex gs"
  by (simp_all add: openFoundBox_frame split: option.splits)

lemma wellFormed_ids: "wellFormed gs \<Longrightarrow> distinct (map id_p (players gs))"
proof -
  assume "wellFormed gs"
  then have "distinct (map pv_id (map playerView (players gs)))"
    by (simp add: wellFormed_def wfCore_def)
  moreover have "pv_id \<circ> playerView = id_p"
    by (rule ext) (simp add: playerView_def)
  ultimately show ?thesis by (simp only: map_map)
qed

lemma getPlayer_self:
  "wellFormed gs \<Longrightarrow> pl \<in> set (players gs) \<Longrightarrow> getPlayer gs (id_p pl) = Some pl"
  unfolding getPlayer_def by (rule find_distinct_self) (simp_all add: wellFormed_ids)

lemma finishLastPlayer_wellFormed:
  assumes wf: "wellFormed gs" and g: "getPlayer gs (id_p pl) = Some pl"
  shows "wellFormed (finishLastPlayer now pl gs)"
proof -
  define gs1 where "gs1 = updatePlayer (id_p pl)
      (\<lambda>p. p\<lparr>hasDealt := True, dealAmount := boxValue pl,
              roundDealt := Some (currentRound gs), isLastStanding := True\<rparr>) gs"
  define gs2 where "gs2 = (case findBox gs1 (boxNumber pl) of
                             None \<Rightarrow> gs1 | Some box \<Rightarrow> openFoundBox box (id_p pl) gs1)"
  have res: "finishLastPlayer now pl gs = finishGame now gs2"
    by (simp only: finishLastPlayer_def Let_def gs1_def gs2_def)
  have pv1: "map playerView (players gs1) = dealView (id_p pl) (map playerView (players gs))"
    unfolding gs1_def by (rule updatePlayer_dealView) (simp add: playerView_def)
  have pv2: "map playerView (players gs2) = dealView (id_p pl) (map playerView (players gs))"
    unfolding gs2_def reveal_frame by (rule pv1)
  have bv2: "map boxView (boxes gs2) =
      (case pv_boxNumber (playerView pl) of None \<Rightarrow> map boxView (boxes gs)
       | Some n \<Rightarrow> openView n (map boxView (boxes gs)))"
  proof -
    have b1: "boxes gs1 = boxes gs" by (simp add: gs1_def updatePlayer_frame)
    show ?thesis unfolding gs2_def reveal_boxView b1 by (simp add: playerView_def)
  qed
  have fr: "turnOrder gs2 = turnOrder gs"
    unfolding gs2_def reveal_frame by (simp add: gs1_def updatePlayer_frame)
  have f: "find (\<lambda>v. pv_id v = id_p pl) (map playerView (players gs)) = Some (playerView pl)"
    using g by (simp add: getPlayer_view)
  have core: "wfCore (phase gs) (pendingOffers gs) (turnOrder gs)
                 (map playerView (players gs)) (map boxView (boxes gs))"
    using wf by (simp add: wellFormed_def)
  have "wfCore Finished (pendingOffers gs2) (turnOrder gs)
          (dealView (id_p pl) (map playerView (players gs))) (map boxView (boxes gs2))"
    using core f _ _ bv2 by (rule wfCore_deal) (use core in \<open>simp_all add: inLobby_def wfCore_def\<close>)
  then show ?thesis
    unfolding res wellFormed_def by (simp add: finishGame_views finishGame_phase pv2 fr)
qed

lemma getLastActivePlayer_mem: "getLastActivePlayer gs = Some pl \<Longrightarrow> pl \<in> set (players gs)"
proof -
  assume a: "getLastActivePlayer gs = Some pl"
  then have l: "length (filter isActivePlayer (players gs)) = 1"
    and p: "pl = filter isActivePlayer (players gs) ! 0"
    by (simp_all add: getLastActivePlayer_def Let_def split: if_splits)
  then have "pl \<in> set (filter isActivePlayer (players gs))" by (metis nth_mem zero_less_one)
  then show ?thesis by simp
qed

lemma getLastActivePlayer_active: "getLastActivePlayer gs = Some pl \<Longrightarrow> isActivePlayer pl"
proof -
  assume a: "getLastActivePlayer gs = Some pl"
  then have l: "length (filter isActivePlayer (players gs)) = 1"
    and p: "pl = filter isActivePlayer (players gs) ! 0"
    by (simp_all add: getLastActivePlayer_def Let_def split: if_splits)
  then have "pl \<in> set (filter isActivePlayer (players gs))" by (metis nth_mem zero_less_one)
  then show ?thesis by simp
qed

lemma getLastActivePlayer_clear [simp]:
  "getLastActivePlayer (clearTurnTimer gs) = getLastActivePlayer gs"
  "getLastActivePlayer (clearOfferTimer gs) = getLastActivePlayer gs"
  by (simp_all add: getLastActivePlayer_def clearTurnTimer_def clearOfferTimer_def)

lemma getPlayer_clear [simp]:
  "getPlayer (clearTurnTimer gs) pid = getPlayer gs pid"
  "getPlayer (clearOfferTimer gs) pid = getPlayer gs pid"
  by (simp_all add: getPlayer_def clearTurnTimer_def clearOfferTimer_def)

lemma lastPlayer_wellFormed:
  "wellFormed gs \<Longrightarrow> getLastActivePlayer gs = Some pl \<Longrightarrow> wellFormed (finishLastPlayer now pl gs)"
  by (rule finishLastPlayer_wellFormed) (simp_all add: getPlayer_self getLastActivePlayer_mem)

lemma wellFormed_phase_update:
  "wellFormed gs \<Longrightarrow> \<not> inLobby ph \<Longrightarrow> wellFormed (phase_update (\<lambda>_. ph) gs)"
  by (simp add: wellFormed_def wfCore_def)

lemma triggerBankerOffer_wellFormed: "wellFormed gs \<Longrightarrow> wellFormed (triggerBankerOffer now rand gs)"
  by (simp add: triggerBankerOffer_def Let_def lastPlayer_wellFormed finishGame_wellFormed
      wellFormed_phase_update inLobby_def split: option.splits)

lemma setCurrentTurn_wellFormed: "wellFormed gs \<Longrightarrow> wellFormed (setCurrentTurn now rand gs)"
  by (simp add: setCurrentTurn_def Let_def triggerBankerOffer_wellFormed)

lemma handleTurnTimeout_wellFormed: "wellFormed gs \<Longrightarrow> wellFormed (handleTurnTimeout now rand pid gs)"
  by (simp add: handleTurnTimeout_def Let_def triggerBankerOffer_wellFormed
      setCurrentTurn_wellFormed wellFormed_updatePlayer_same playerView_def)

lemma startNewRound_wellFormed: "wellFormed gs \<Longrightarrow> wellFormed (startNewRound now rand gs)"
  by (simp add: startNewRound_def Let_def lastPlayer_wellFormed setCurrentTurn_wellFormed
      wellFormed_phase_update inLobby_def split: option.splits)

lemma endOfferAndContinue_wellFormed: "wellFormed gs \<Longrightarrow> wellFormed (endOfferAndContinue now rand gs)"
  by (simp add: endOfferAndContinue_def Let_def lastPlayer_wellFormed finishGame_wellFormed
      startNewRound_wellFormed split: option.splits)

lemma defaultNoDeal_wellFormed [simp]: "wellFormed (defaultNoDeal q gs) = wellFormed gs"
  by (simp add: defaultNoDeal_def wellFormed_updatePlayer_same playerView_def)

lemma applyOfferDefaults_wellFormed [simp]: "wellFormed (applyOfferDefaults gs) = wellFormed gs"
proof -
  have "wellFormed (fold defaultNoDeal qs gs) = wellFormed gs" for qs
    by (induction qs arbitrary: gs) simp_all
  then show ?thesis by (simp add: applyOfferDefaults_def)
qed

lemma handleOfferTimeout_wellFormed: "wellFormed gs \<Longrightarrow> wellFormed (handleOfferTimeout now rand gs)"
  by (simp add: handleOfferTimeout_def endOfferAndContinue_wellFormed)


lemma wellFormed_core:
  "wellFormed gs \<Longrightarrow>
   wfCore (phase gs) (pendingOffers gs) (turnOrder gs) (map playerView (players gs)) (map boxView (boxes gs))"
  by (simp add: wellFormed_def)

lemma length_BOX_VALUES: "length BOX_VALUES = 20"
  by (simp add: BOX_VALUES_def)

lemma box_numbers_initial: "(\<lambda>i. int i + 1) ` {0..<20} = {1..20}"
proof
  show "(\<lambda>i. int i + 1) ` {0..<20} \<subseteq> {1..20}" by auto
  show "{1..20} \<subseteq> (\<lambda>i. int i + 1) ` {0..<20}"
  proof
    fix x :: int assume "x \<in> {1..20}"
    then have "nat (x - 1) \<in> {0..<20}" and "x = int (nat (x - 1)) + 1" by auto
    then show "x \<in> (\<lambda>i. int i + 1) ` {0..<20}" by (rule rev_image_eqI)
  qed
qed

lemma createInitialBoxes_view:
  "map boxView (createInitialBoxes rands) = map (\<lambda>i. \<lparr>bv_number = int i + 1, bv_isOpened = False\<rparr>) [0..<20]"
proof -
  have len: "length (shuffleArray BOX_VALUES rands) = 20"
    by (simp add: shuffleArray_def length_shuffleLoop length_BOX_VALUES)
  have "map (\<lambda>x. boxView (case x of (v, index) \<Rightarrow> \<lparr>number = int index + 1, value_b = v, isOpened = False,
                              openedByPlayerId = None\<rparr>)) (zip xs [0..<length xs])
        = map (\<lambda>i. \<lparr>bv_number = int i + 1, bv_isOpened = False\<rparr>) [0..<length xs]" for xs :: "rat list"
  proof -
    have "map (\<lambda>x. boxView (case x of (v, index) \<Rightarrow> \<lparr>number = int index + 1, value_b = v, isOpened = False,
                              openedByPlayerId = None\<rparr>)) (zip xs [0..<length xs])
          = map ((\<lambda>i. \<lparr>bv_number = int i + 1, bv_isOpened = False\<rparr>) \<circ> snd) (zip xs [0..<length xs])"
      by (rule map_cong) (auto simp add: boxView_def)
    also have "\<dots> = map (\<lambda>i. \<lparr>bv_number = int i + 1, bv_isOpened = False\<rparr>) (map snd (zip xs [0..<length xs]))"
      by (simp only: map_map)
    also have "map snd (zip xs [0..<length xs]) = [0..<length xs]" by (simp add: map_snd_zip)
    finally show ?thesis .
  qed
  from this[of "shuffleArray BOX_VALUES rands"] show ?thesis
    by (simp add: createInitialBoxes_def Let_def len comp_def)
qed

lemma createRoom_wellFormed: "wellFormed (createRoom code playerId sock hostName now rands)"
proof -
  have n: "bv_number \<circ> (\<lambda>i. \<lparr>bv_number = int i + 1, bv_isOpened = False\<rparr>) = (\<lambda>i. int i + 1)"
    by (rule ext) simp
  show ?thesis
    unfolding wellFormed_def
    by (simp add: createRoom_def createInitialBoxes_view wfCore_def playerView_def n
        box_numbers_initial del: upt_Suc)
qed

lemma selectBox_wellFormed: "wellFormed gs \<Longrightarrow> wellFormed (selectBox pid n gs)"
proof -
  assume wf: "wellFormed gs"
  note core = wellFormed_core[OF wf]
  have len: "length (boxes gs) = 20" using core by (simp add: wfCore_def)
  {
    assume lobby: "phase gs = Waiting \<or> phase gs = Selection"
      and range: "\<not> (n < 1 \<or> n > int (length (boxes gs)))"
      and guard: "\<not> list_ex (\<lambda>p. boxNumber p = Some n \<and> id_p p \<noteq> pid) (players gs)"
    have pv: "map playerView (players (updatePlayer pid (\<lambda>p. p\<lparr>boxNumber := Some n\<rparr>) gs))
        = updateFirst (\<lambda>v. pv_id v = pid) (\<lambda>v. v\<lparr>pv_boxNumber := Some n\<rparr>) (map playerView (players gs))"
      unfolding updatePlayer_def
      by simp (rule map_updateFirst; simp add: playerView_def)
    have g: "\<forall>v \<in> set (map playerView (players gs)). pv_boxNumber v = Some n \<longrightarrow> pv_id v = pid"
      using guard by (auto simp add: list_ex_iff playerView_def)
    have "wfCore (phase gs) (pendingOffers gs) (turnOrder gs)
            (updateFirst (\<lambda>v. pv_id v = pid) (\<lambda>v. v\<lparr>pv_boxNumber := Some n\<rparr>) (map playerView (players gs)))
            (map boxView (boxes gs))"
      using core _ _ g by (rule wfCore_select) (use lobby range len in \<open>simp_all add: inLobby_def\<close>)
    then have "wellFormed (updatePlayer pid (\<lambda>p. p\<lparr>boxNumber := Some n\<rparr>) gs)"
      unfolding wellFormed_def pv by (simp add: updatePlayer_frame)
  }
  then show ?thesis using wf by (auto simp add: selectBox_def split: option.splits)
qed

lemma playerReady_wellFormed: "wellFormed gs \<Longrightarrow> wellFormed (playerReady pid gs)"
  by (simp add: playerReady_def wellFormed_updatePlayer_same playerView_def split: option.splits)

lemma setPlayer_fresh: "id_p pl \<notin> set (map id_p ps) \<Longrightarrow> setPlayer pl ps = ps @ [pl]"
proof -
  assume "id_p pl \<notin> set (map id_p ps)"
  then have "\<forall>p \<in> set ps. id_p p \<noteq> id_p pl" by (induction ps) auto
  then show ?thesis by (simp add: setPlayer_def list_ex_iff)
qed

lemma onJoinRoom_wellFormed:
  assumes wf: "wellFormed gs" and fresh: "newId \<notin> set (map id_p (players gs))"
  shows "wellFormed (onJoinRoom newId sock nm pw sp gs)"
proof -
  {
    fix pl :: Player
    assume pl: "id_p pl = newId" "boxNumber pl = None"
    have "wfCore (phase gs) (pendingOffers gs) (turnOrder gs)
            (map playerView (players gs) @ [playerView pl]) (map boxView (boxes gs))"
      using wellFormed_core[OF wf]
    proof (rule wfCore_join)
      have "pv_id \<circ> playerView = id_p" by (rule ext) (simp add: playerView_def)
      then have "map pv_id (map playerView (players gs)) = map id_p (players gs)"
        by (simp only: map_map)
      then show "pv_id (playerView pl) \<notin> set (map pv_id (map playerView (players gs)))"
        using fresh pl by (simp add: playerView_def)
      show "pv_boxNumber (playerView pl) = None" using pl by (simp add: playerView_def)
    qed
    then have "wellFormed (gs\<lparr>players := setPlayer pl (players gs)\<rparr>)"
      using fresh pl by (simp add: wellFormed_def setPlayer_fresh)
  }
  then show ?thesis
    using wf by (auto simp add: onJoinRoom_def joinRoom_def Let_def split: sum.splits if_splits)
qed


lemma startGame_wellFormed: "wellFormed gs \<Longrightarrow> wellFormed (startGame pid sr now rand gs)"
proof -
  assume wf: "wellFormed gs"
  define assign where "assign = (\<lambda>player :: Player.
              if boxNumber player \<noteq> None \<and> role player = RolePlayer
              then (case findBox gs (boxNumber player) of
                      None \<Rightarrow> player
                    | Some box \<Rightarrow> player\<lparr>boxValue := Some (value_b box)\<rparr>)
              else player)"
  have v: "playerView (assign p) = playerView p" for p
    by (simp add: assign_def playerView_def split: option.splits)
  have pv: "map playerView (map assign (players gs)) = map playerView (players gs)"
    by (simp add: v)
  have d: "distinct (map id_p (filter isContestant (players gs)))"
    using wellFormed_ids[OF wf] by (rule distinct_map_filter)
  define gs' where "gs' = gs\<lparr>players := map assign (players gs), phase := Playing, currentRound := 1,
                 startedAt := Some now, turnOrder := map id_p (filter isContestant (players gs)),
                 currentTurnIndex := \<lfloor>sr * of_nat (length (map id_p (filter isContestant (players gs))))\<rfloor>,
                 offerEligiblePlayerIds := [], offerResponses := Map.empty\<rparr>"
  have core': "wfCore Playing (pendingOffers gs) (map id_p (filter isContestant (players gs)))
                 (map playerView (players gs)) (map boxView (boxes gs))"
    using wellFormed_core[OF wf] d by (simp add: wfCore_def inLobby_def)
  have sel: "players gs' = map assign (players gs)" "phase gs' = Playing"
    "turnOrder gs' = map id_p (filter isContestant (players gs))" "boxes gs' = boxes gs"
    "pendingOffers gs' = pendingOffers gs"
    by (simp_all add: gs'_def)
  have "wellFormed gs'"
    unfolding wellFormed_def sel pv by (rule core')
  then have "wellFormed (setCurrentTurn now rand gs')" by (rule setCurrentTurn_wellFormed)
  moreover have "startGame pid sr now rand gs =
      (if hostId gs \<noteq> pid then gs else if \<not> allPlayersReady gs then gs else setCurrentTurn now rand gs')"
    by (simp add: startGame_def Let_def gs'_def assign_def)
  ultimately show ?thesis using wf by simp
qed

lemma onSetRoomPassword_wellFormed: "wellFormed gs \<Longrightarrow> wellFormed (onSetRoomPassword pid pw gs)"
  by (simp add: onSetRoomPassword_def setRoomPassword_def Let_def)

lemma openFoundBox_wellFormed:
  assumes wf: "wellFormed gs" and ph: "\<not> inLobby (phase gs)"
    and free: "find (\<lambda>p. boxNumber p = Some (number box)) (players gs) = None"
  shows "wellFormed (openFoundBox box pid gs)"
proof -
  have "\<forall>v \<in> set (map playerView (players gs)). pv_boxNumber v \<noteq> Some (number box)"
    using free by (auto simp add: find_None_iff playerView_def)
  with wellFormed_core[OF wf]
  have "wfCore (phase gs) (pendingOffers gs) (turnOrder gs) (map playerView (players gs))
          (openView (number box) (map boxView (boxes gs)))"
    using ph by (rule wfCore_open)
  then show ?thesis
    unfolding wellFormed_def by (simp add: openFoundBox_frame openFoundBox_boxView)
qed

lemma wellFormed_pending_update:
  "wellFormed gs \<Longrightarrow> \<not> inLobby (phase gs) \<Longrightarrow> wellFormed (pendingOffers_update f gs)"
  by (simp add: wellFormed_def wfCore_def)

lemma openBox_wellFormed: "wellFormed gs \<Longrightarrow> wellFormed (openBox pid n now rand gs)"
proof -
  assume wf: "wellFormed gs"
  show ?thesis
  proof (cases "find (\<lambda>b. number b = n) (boxes gs)")
    case None
    then show ?thesis using wf by (simp add: openBox_def Let_def split: option.splits)
  next
    case (Some box)
    show ?thesis
    proof (cases "phase gs = Playing \<and> find (\<lambda>p. boxNumber p = Some n) (players gs) = None")
      case False
      then show ?thesis using wf Some by (auto simp add: openBox_def Let_def split: option.splits)
    next
      case True
      have num: "number box = n" using Some by (rule find_number)
      have W0: "wellFormed (openFoundBox box pid (clearTurnTimer gs))"
        by (rule openFoundBox_wellFormed)
           (use wf True num in \<open>simp_all add: inLobby_def clearTurnTimer_def\<close>)
      have P0: "phase (openFoundBox box pid (clearTurnTimer gs)) = Playing"
        using True by (simp add: openFoundBox_frame clearTurnTimer_def)
      show ?thesis
        using wf Some True W0 P0
        by (simp add: openBox_def Let_def wellFormed_pending_update setCurrentTurn_wellFormed
            inLobby_def split: option.splits)
    qed
  qed
qed

lemma openBoxes_wellFormed: "wellFormed gs \<Longrightarrow> wellFormed (openBoxes pid ns now rand gs)"
  by (simp add: openBoxes_def openBox_wellFormed split: list.splits)

lemma distinct_spliceOut: "distinct xs \<Longrightarrow> distinct (spliceOut i xs)"
proof -
  assume d: "distinct xs"
  have "set (take i xs) \<inter> set (drop (i + 1) xs) = {}"
    using d by (metis Suc_eq_plus1 le_add1 set_take_disj_set_drop_if_distinct)
  then show ?thesis using d by (simp add: spliceOut_def)
qed

lemma acceptDeal_wellFormed:
  assumes wf: "wellFormed gs" and g: "getPlayer gs pid = Some pl" and ph: "\<not> inLobby (phase gs)"
  shows "wellFormed (acceptDeal pid pl offer gs)"
proof -
  define F where "F = (\<lambda>p :: Player. p\<lparr>hasDealt := True, dealAmount := Some offer,
                          roundDealt := Some (currentRound gs), isLastStanding := False,
                          points := calculatePoints offer (orZero (boxValue pl)) (int (currentRound gs))
                            False False (int (timeoutCount pl))\<rparr>)"
  define gs1 where "gs1 = updatePlayer pid F gs"
  define gs2 where "gs2 = (case findBox gs1 (boxNumber pl) of
                   None \<Rightarrow> gs1
                 | Some box \<Rightarrow> if \<not> isOpened box then openFoundBox box pid gs1 else gs1)"
  have pv1: "map playerView (players gs1) = dealView pid (map playerView (players gs))"
    unfolding gs1_def by (rule updatePlayer_dealView) (simp add: playerView_def F_def)
  have pv2: "map playerView (players gs2) = dealView pid (map playerView (players gs))"
    unfolding gs2_def reveal_closed_frame by (rule pv1)
  have b1: "boxes gs1 = boxes gs" by (simp add: gs1_def updatePlayer_frame)
  have bv2: "map boxView (boxes gs2) =
      (case pv_boxNumber (playerView pl) of None \<Rightarrow> map boxView (boxes gs)
       | Some n \<Rightarrow> openView n (map boxView (boxes gs)))"
    unfolding gs2_def reveal_closed_boxView b1 by (simp add: playerView_def)
  have fr: "turnOrder gs2 = turnOrder gs" "phase gs2 = phase gs"
    unfolding gs2_def reveal_closed_frame by (simp_all add: gs1_def updatePlayer_frame)
  have f: "find (\<lambda>v. pv_id v = pid) (map playerView (players gs)) = Some (playerView pl)"
    using g by (simp add: getPlayer_view)
  note core = wellFormed_core[OF wf]
  have ord: "distinct (turnOrder gs)" using core by (simp add: wfCore_def)
  have any: "wfCore (phase gs) pending' order'
          (dealView pid (map playerView (players gs))) (map boxView (boxes gs2))"
    if "distinct order'" for pending' order'
    using core f ph that bv2 by (rule wfCore_deal)
  have wf2: "wellFormed gs2"
    unfolding wellFormed_def pv2 fr using any[OF ord] by simp
  have wf3: "wellFormed (gs2\<lparr>turnOrder := spliceOut i (turnOrder gs2)\<rparr>)" for i
    unfolding wellFormed_def using any[OF distinct_spliceOut[OF ord, of i]]
    by (simp add: pv2 fr)
  have res: "acceptDeal pid pl offer gs =
     (let turnIdx = indexOf (turnOrder gs2) pid
      in if turnIdx > - 1
         then
           let gs3 = gs2\<lparr>turnOrder := spliceOut (nat turnIdx) (turnOrder gs2)\<rparr>
           in if turnIdx < currentTurnIndex gs3
              then gs3\<lparr>currentTurnIndex := max 0 (currentTurnIndex gs3 - 1)\<rparr>
              else gs3
         else gs2)"
    by (simp only: acceptDeal_def Let_def gs1_def gs2_def F_def)
  show ?thesis
    unfolding res using wf2 wf3 by (simp add: Let_def)
qed

lemma acceptDeal_recorded_wellFormed:
  "wellFormed gs \<Longrightarrow> getPlayer gs pid = Some pl \<Longrightarrow> phase gs = Offer \<Longrightarrow>
   wellFormed (acceptDeal pid pl offer (gs\<lparr>offerResponses := r\<rparr>))"
  by (rule acceptDeal_wellFormed) (simp_all add: inLobby_def getPlayer_def)

lemma recordDealResponse_wellFormed:
  "wellFormed gs \<Longrightarrow> getPlayer gs pid = Some pl \<Longrightarrow> phase gs = Offer \<Longrightarrow>
   wellFormed (recordDealResponse pid pl acc gs)"
  by (simp add: recordDealResponse_def Let_def acceptDeal_recorded_wellFormed split: option.splits)

lemma dealResponse_wellFormed: "wellFormed gs \<Longrightarrow> wellFormed (dealResponse pid acc now rand gs)"
  by (simp add: dealResponse_def Let_def recordDealResponse_wellFormed
      endOfferAndContinue_wellFormed split: option.splits)

lemma handle_wellFormed:
  assumes wf: "wellFormed gs" and adm: "admissible e gs"
  shows "wellFormed (handle now rand e gs)"
proof (cases e)
  case (JoinRoom newId sock nm pw sp)
  then show ?thesis using wf adm by (simp add: onJoinRoom_wellFormed)
next
  case DelayedOfferFires
  have "\<not> inLobby (phase gs)" if "pendingOffers gs > 0"
    using wellFormed_core[OF wf] that by (auto simp add: wfCore_def)
  then show ?thesis
    using wf DelayedOfferFires
    by (simp add: triggerBankerOffer_wellFormed wellFormed_pending_update)
qed (use wf in \<open>simp_all add: selectBox_wellFormed playerReady_wellFormed startGame_wellFormed
      onSetRoomPassword_wellFormed openBox_wellFormed openBoxes_wellFormed dealResponse_wellFormed
      handleTurnTimeout_wellFormed handleOfferTimeout_wellFormed handleDisconnect_def
      reconnectPlayer_def wellFormed_updatePlayer_same playerView_def split: option.splits\<close>)

lemma reachable_wellFormed: "reachable gs \<Longrightarrow> wellFormed gs"
  by (induction rule: reachable.induct) (simp_all add: createRoom_wellFormed handle_wellFormed)


section \<open>Last-standing reveal\<close>

lemma find_map_keep:
  "(\<And>x. P (h x) = P x) \<Longrightarrow> find P (map h xs) = map_option h (find P xs)"
  by (induction xs) simp_all

lemma finishGame_settlement:
  "map (\<lambda>p. (id_p p, hasDealt p, dealAmount p, isLastStanding p, roundDealt p)) (players (finishGame now gs))
     = map (\<lambda>p. (id_p p, hasDealt p, dealAmount p, isLastStanding p, roundDealt p)) (players gs)"
  by (simp add: finishGame_def Let_def clearOfferTimer_def clearTurnTimer_def)

lemma getPlayer_finishGame:
  "map_option (\<lambda>p. (hasDealt p, dealAmount p, isLastStanding p, roundDealt p)) (getPlayer (finishGame now gs) pid)
     = map_option (\<lambda>p. (hasDealt p, dealAmount p, isLastStanding p, roundDealt p)) (getPlayer gs pid)"
  unfolding getPlayer_def
    find_map_key[of "\<lambda>p. (hasDealt p, dealAmount p, isLastStanding p, roundDealt p)" id_p]
  by (simp only: finishGame_settlement)

lemma wellFormed_box_exists:
  assumes wf: "wellFormed gs" and pl: "pl \<in> set (players gs)" and bn: "boxNumber pl = Some n"
  shows "\<exists>box. find (\<lambda>b. number b = n) (boxes gs) = Some box"
proof -
  note core = wellFormed_core[OF wf]
  have "playerView pl \<in> set (map playerView (players gs))" using pl by simp
  moreover have "pv_boxNumber (playerView pl) = Some n" using bn by (simp add: playerView_def)
  ultimately have "1 \<le> n \<and> n \<le> 20" using core unfolding wfCore_def by blast
  moreover have "set (map bv_number (map boxView (boxes gs))) = {1..20}"
    using core unfolding wfCore_def by blast
  moreover have "bv_number \<circ> boxView = number" by (rule ext) (simp add: boxView_def)
  ultimately have "n \<in> set (map number (boxes gs))" by (simp only: map_map) simp
  then have "\<exists>b \<in> set (boxes gs). number b = n" by auto
  then have "find (\<lambda>b. number b = n) (boxes gs) \<noteq> None" by (auto simp add: find_None_iff)
  then show ?thesis by auto
qed

lemma finishLastPlayer_settled:
  assumes wf: "wellFormed gs" and pl: "pl \<in> set (players gs)" and act: "isActivePlayer pl"
  shows "lastStandingSettled pl (currentRound gs) (finishLastPlayer now pl gs)"
proof -
  define F where "F = (\<lambda>p :: Player. p\<lparr>hasDealt := True, dealAmount := boxValue pl,
              roundDealt := Some (currentRound gs), isLastStanding := True\<rparr>)"
  define gs1 where "gs1 = updatePlayer (id_p pl) F gs"
  obtain n where bn: "boxNumber pl = Some n" using act by (auto simp add: isActivePlayer_def)
  obtain box where box: "find (\<lambda>b. number b = n) (boxes gs) = Some box"
    using wellFormed_box_exists[OF wf pl bn] by blast
  have num: "number box = n" using box by (rule find_number)
  have fb1: "findBox gs1 (boxNumber pl) = Some box"
    using box bn by (simp add: findBox_def gs1_def updatePlayer_frame)
  define gs2 where "gs2 = openFoundBox box (id_p pl) gs1"
  have res: "finishLastPlayer now pl gs = finishGame now gs2"
    using fb1 unfolding gs2_def gs1_def F_def
    by (simp add: finishLastPlayer_def Let_def del: findBox_updatePlayer)
  have g0: "getPlayer gs (id_p pl) = Some pl" using wf pl by (rule getPlayer_self)
  have g1: "getPlayer gs1 (id_p pl) = Some (F pl)"
    unfolding gs1_def using g0 by (simp add: getPlayer_updatePlayer_same F_def)
  have g2: "getPlayer gs2 (id_p pl) = Some (F pl)"
    using g1 by (simp add: getPlayer_def gs2_def openFoundBox_frame)
  have "map_option (\<lambda>p. (hasDealt p, dealAmount p, isLastStanding p, roundDealt p))
          (getPlayer (finishGame now gs2) (id_p pl))
        = Some (True, boxValue pl, True, Some (currentRound gs))"
    unfolding getPlayer_finishGame g2 by (simp add: F_def)
  then have player: "\<exists>p'. getPlayer (finishGame now gs2) (id_p pl) = Some p' \<and> hasDealt p'
        \<and> dealAmount p' = boxValue pl \<and> isLastStanding p' \<and> roundDealt p' = Some (currentRound gs)"
    by auto
  have b2: "boxes gs2 = updateFirst (\<lambda>b. number b = n)
              (\<lambda>b. b\<lparr>isOpened := True, openedByPlayerId := Some (id_p pl)\<rparr>) (boxes gs)"
    by (simp add: gs2_def openFoundBox_def moveToEliminated_def Let_def num gs1_def updatePlayer_frame)
  have "find (\<lambda>b. number b = n) (boxes gs2) = Some (box\<lparr>isOpened := True, openedByPlayerId := Some (id_p pl)\<rparr>)"
    unfolding b2 using box by (simp add: find_updateFirst_keep)
  then have boxp: "\<exists>b'. findBox (finishGame now gs2) (boxNumber pl) = Some b' \<and> isOpened b'
               \<and> openedByPlayerId b' = Some (id_p pl)"
    by (simp add: findBox_def bn finishGame_views)
  show ?thesis
    unfolding lastStandingSettled_def res using player boxp by (simp add: finishGame_phase)
qed

lemma endOfferAndContinue_settled:
  assumes wf: "wellFormed gs" and last: "getLastActivePlayer gs = Some pl"
  shows "lastStandingSettled pl (currentRound gs) (endOfferAndContinue now rand gs)"
proof -
  have pl: "pl \<in> set (players gs)" using last by (rule getLastActivePlayer_mem)
  have act: "isActivePlayer pl" using last by (rule getLastActivePlayer_active)
  have "filter isActivePlayer (players gs) \<noteq> []" using pl act by (auto simp add: filter_empty_conv)
  then have ne: "\<not> checkGameEnd (clearOfferTimer gs)"
    by (simp add: checkGameEnd_def clearOfferTimer_def)
  have "endOfferAndContinue now rand gs = finishLastPlayer now pl (clearOfferTimer gs)"
    using ne last by (simp add: endOfferAndContinue_def Let_def)
  moreover have "lastStandingSettled pl (currentRound (clearOfferTimer gs))
                   (finishLastPlayer now pl (clearOfferTimer gs))"
    by (rule finishLastPlayer_settled) (use wf pl act in \<open>simp_all add: clearOfferTimer_def\<close>)
  ultimately show ?thesis by (simp add: clearOfferTimer_def)
qed

lemma currentRound_applyOfferDefaults: "currentRound (applyOfferDefaults gs) = currentRound gs"
proof -
  have "currentRound (fold defaultNoDeal qs gs) = currentRound gs" for qs
    by (induction qs arbitrary: gs) (simp_all add: defaultNoDeal_def updatePlayer_def)
  then show ?thesis by (simp add: applyOfferDefaults_def)
qed

lemma currentRound_acceptDeal: "currentRound (acceptDeal pid pl offer gs) = currentRound gs"
proof -
  have "currentRound (case findBox g bn of None \<Rightarrow> g
            | Some box \<Rightarrow> if \<not> isOpened box then openFoundBox box pid g else g) = currentRound g" for g bn
    by (simp add: openFoundBox_frame split: option.splits)
  then show ?thesis by (simp add: acceptDeal_def Let_def updatePlayer_def)
qed

lemma currentRound_recordDealResponse:
  "currentRound (recordDealResponse pid pl acc gs) = currentRound gs"
  by (simp add: recordDealResponse_def Let_def currentRound_acceptDeal split: option.splits)

text \<open>
  Claim C5. An offer resolves in \<open>endOfferAndContinue\<close>, which the offer timeout calls
  after the default responses and the deal-response handler calls once every eligible
  player has responded. In a reachable room in the offer phase, whenever exactly one
  contestant is still undealt at that point (\<open>getLastActivePlayer\<close> returns the contestant),
  the event (the pending offer timer firing, or the last deal response) ends with the game finished, the contestant settled with \<open>hasDealt\<close>,
  \<open>dealAmount = boxValue\<close>, \<open>isLastStanding\<close> and \<open>roundDealt = currentRound\<close>, and the
  contestant's personal box opened with the contestant as opener.
\<close>

lemma defaultNoDeal_offerTimer:
  "defaultNoDeal q (gs\<lparr>offerTimer := b\<rparr>) = (defaultNoDeal q gs)\<lparr>offerTimer := b\<rparr>"
  by (simp add: defaultNoDeal_def updatePlayer_def)

lemma applyOfferDefaults_offerTimer:
  "applyOfferDefaults (gs\<lparr>offerTimer := b\<rparr>) = (applyOfferDefaults gs)\<lparr>offerTimer := b\<rparr>"
proof -
  have "fold defaultNoDeal qs (g\<lparr>offerTimer := b\<rparr>) = (fold defaultNoDeal qs g)\<lparr>offerTimer := b\<rparr>" for qs g
    by (induction qs arbitrary: g) (simp_all add: defaultNoDeal_offerTimer)
  then show ?thesis by (simp add: applyOfferDefaults_def)
qed

lemma getLastActivePlayer_offerTimer:
  "getLastActivePlayer (gs\<lparr>offerTimer := b\<rparr>) = getLastActivePlayer gs"
  by (simp add: getLastActivePlayer_def)

theorem last_standing_reveal:
  assumes reach: "reachable gs" and ph: "phase gs = Offer"
  shows "(offerTimer gs \<and> getLastActivePlayer (applyOfferDefaults gs) = Some pl \<longrightarrow>
            lastStandingSettled pl (currentRound gs) (handle now rand OfferTimerFires gs))
       \<and> (getPlayer gs playerId = Some player \<and> \<not> hasDealt player \<and> role player = RolePlayer
          \<and> offerResponses gs playerId = None \<and> playerId \<in> set (offerEligiblePlayerIds gs)
          \<and> allResponded (recordDealResponse playerId player accepted gs)
          \<and> getLastActivePlayer (recordDealResponse playerId player accepted gs) = Some pl' \<longrightarrow>
            lastStandingSettled pl' (currentRound gs)
              (handle now rand (DealResponse playerId accepted) gs))"
proof (intro conjI impI)
  have wf: "wellFormed gs" using reach by (rule reachable_wellFormed)
  {
    assume a: "offerTimer gs \<and> getLastActivePlayer (applyOfferDefaults gs) = Some pl"
    define fired where "fired = gs\<lparr>offerTimer := False\<rparr>"
    have last: "getLastActivePlayer (applyOfferDefaults fired) = Some pl"
      using a by (simp add: fired_def applyOfferDefaults_offerTimer getLastActivePlayer_offerTimer)
    have wff: "wellFormed (applyOfferDefaults fired)" using wf by (simp add: fired_def)
    have "lastStandingSettled pl (currentRound (applyOfferDefaults fired))
            (endOfferAndContinue now rand (applyOfferDefaults fired))"
      using wff last by (rule endOfferAndContinue_settled)
    moreover have "currentRound (applyOfferDefaults fired) = currentRound gs"
      by (simp add: currentRound_applyOfferDefaults fired_def)
    moreover have "handle now rand OfferTimerFires gs = endOfferAndContinue now rand (applyOfferDefaults fired)"
      using a ph by (simp add: handleOfferTimeout_def fired_def)
    ultimately show "lastStandingSettled pl (currentRound gs) (handle now rand OfferTimerFires gs)"
      by simp
  }
  {
    assume a: "getPlayer gs playerId = Some player \<and> \<not> hasDealt player \<and> role player = RolePlayer
          \<and> offerResponses gs playerId = None \<and> playerId \<in> set (offerEligiblePlayerIds gs)
          \<and> allResponded (recordDealResponse playerId player accepted gs)
          \<and> getLastActivePlayer (recordDealResponse playerId player accepted gs) = Some pl'"
    have wfm: "wellFormed (recordDealResponse playerId player accepted gs)"
      by (rule recordDealResponse_wellFormed) (use wf a ph in simp_all)
    have "lastStandingSettled pl' (currentRound (recordDealResponse playerId player accepted gs))
            (endOfferAndContinue now rand (recordDealResponse playerId player accepted gs))"
      by (rule endOfferAndContinue_settled) (use wfm a in simp_all)
    then show "lastStandingSettled pl' (currentRound gs)
                 (handle now rand (DealResponse playerId accepted) gs)"
      using a ph by (simp add: dealResponse_def Let_def currentRound_recordDealResponse)
  }
qed

theorem last_standing_reveal_witness:
  "reachable demoTwoDealt \<and> phase demoTwoDealt = Offer
   \<and> (\<exists>pl. getLastActivePlayer (applyOfferDefaults demoTwoDealt) = Some pl \<and> id_p pl = ''p2''
          \<and> lastStandingSettled pl 1 (handle 0 (1 / 2) OfferTimerFires demoTwoDealt))
   \<and> (\<exists>player pl. getPlayer demoTwoDealt ''p2'' = Some player
          \<and> getLastActivePlayer (recordDealResponse ''p2'' player False demoTwoDealt) = Some pl
          \<and> lastStandingSettled pl 1 (handle 0 (1 / 2) (DealResponse ''p2'' False) demoTwoDealt))
   \<and> map_option dealAmount (getPlayer (handle 0 (1 / 2) OfferTimerFires demoTwoDealt) ''p2'') = Some (Some (1 / 100))"
proof -
  have ph: "phase demoTwoDealt = Offer" by code_simp
  have r: "currentRound demoTwoDealt = 1" by code_simp
  have v: "map_option dealAmount (getPlayer (handle 0 (1 / 2) OfferTimerFires demoTwoDealt) ''p2'') = Some (Some (1 / 100))"
    by code_simp
  have armed: "offerTimer demoTwoDealt" by code_simp
  have "map_option id_p (getLastActivePlayer (applyOfferDefaults demoTwoDealt)) = Some ''p2''"
    by code_simp
  then obtain pl where pl: "getLastActivePlayer (applyOfferDefaults demoTwoDealt) = Some pl" "id_p pl = ''p2''"
    by auto
  have "map_option (\<lambda>p. (hasDealt p, role p)) (getPlayer demoTwoDealt ''p2'') = Some (False, RolePlayer)"
    by code_simp
  then obtain player where player: "getPlayer demoTwoDealt ''p2'' = Some player" "\<not> hasDealt player"
    "role player = RolePlayer"
    by auto
  have g: "offerResponses demoTwoDealt ''p2'' = None" "''p2'' \<in> set (offerEligiblePlayerIds demoTwoDealt)"
    by code_simp+
  have rec: "recordDealResponse ''p2'' player False demoTwoDealt
             = demoTwoDealt\<lparr>offerResponses := (offerResponses demoTwoDealt)(''p2'' \<mapsto> False)\<rparr>"
    by (simp add: recordDealResponse_def Let_def split: option.splits)
  have all: "allResponded (demoTwoDealt\<lparr>offerResponses := (offerResponses demoTwoDealt)(''p2'' \<mapsto> False)\<rparr>)"
    by code_simp
  have "getLastActivePlayer (demoTwoDealt\<lparr>offerResponses := (offerResponses demoTwoDealt)(''p2'' \<mapsto> False)\<rparr>) \<noteq> None"
    by code_simp
  then obtain pl' where pl': "getLastActivePlayer (recordDealResponse ''p2'' player False demoTwoDealt) = Some pl'"
    unfolding rec by auto
  note T = last_standing_reveal [OF reachable_demoTwoDealt ph, of pl 0 "1 / 2" "''p2''" player False pl']
  from T pl armed have a: "lastStandingSettled pl 1 (handle 0 (1 / 2) OfferTimerFires demoTwoDealt)"
    by (simp add: r)
  from T player g all pl' have b: "lastStandingSettled pl' 1 (handle 0 (1 / 2) (DealResponse ''p2'' False) demoTwoDealt)"
    by (simp add: r rec)
  show ?thesis
    using reachable_demoTwoDealt ph pl a player(1) pl' b v by blast
qed

section \<open>Accepting an offer\<close>

lemma closed_value_remaining:
  assumes inv: "ladderInv gs" and found: "find P (boxes gs) = Some box" and closed: "\<not> isOpened box"
  shows "value_b box \<in> set (remainingValues gs)"
proof -
  define Op where "Op = mset (map value_b (filter isOpened (boxes gs)))"
  define Cl where "Cl = mset (map value_b (filter (\<lambda>b. \<not> isOpened b) (boxes gs)))"
  have B: "Op + Cl = mset BOX_VALUES"
    using inv mset_map_split[of value_b "boxes gs" isOpened] by (simp add: ladderInv_def Op_def Cl_def)
  have RE: "mset (remainingValues gs) + mset (eliminatedValues gs) = mset BOX_VALUES"
    and EO: "mset (eliminatedValues gs) = Op"
    using inv unfolding ladderInv_def partitionInv_def openedValues_def Op_def by blast+
  have "Op + mset (remainingValues gs) = Op + Cl" using B RE EO by (simp add: union_commute)
  then have "mset (remainingValues gs) = Cl" by simp
  moreover have "box \<in> set (filter (\<lambda>b. \<not> isOpened b) (boxes gs))"
    using found closed by (rule find_in_filter)
  then have "value_b box \<in># Cl" unfolding Cl_def by auto
  ultimately have "value_b box \<in># mset (remainingValues gs)" by simp
  then show ?thesis by simp
qed

lemma wellFormed_personal_closed:
  assumes wf: "wellFormed gs" and pl: "pl \<in> set (players gs)" and act: "isActivePlayer pl"
    and bn: "boxNumber pl = Some n" and box: "find (\<lambda>b. number b = n) (boxes gs) = Some box"
  shows "\<not> isOpened box"
proof -
  note core = wellFormed_core[OF wf]
  have v: "playerView pl \<in> set (map playerView (players gs))" using pl by simp
  have a: "pv_role (playerView pl) = RolePlayer \<and> \<not> pv_hasDealt (playerView pl)"
    using act by (simp add: isActivePlayer_def playerView_def)
  have b: "boxView box \<in> set (map boxView (boxes gs))" using find_Some_mem[OF box] by simp
  have o: "pv_boxNumber (playerView pl) = Some (bv_number (boxView box))"
    using bn find_number[OF box] by (simp add: playerView_def boxView_def)
  have "\<not> bv_isOpened (boxView box)" using core v a b o unfolding wfCore_def by blast
  then show ?thesis by (simp add: boxView_def)
qed

lemma remove1_spliceOut:
  "(if indexOf xs x > - 1 then spliceOut (nat (indexOf xs x)) xs else xs) = remove1 x xs"
  by (simp add: indexOf_found spliceOut_indexOf remove1_idem)

text \<open>
  Claim C4, as amended. In a reachable room in the offer phase, let an eligible contestant
  who has not responded accept the current offer. After the handler has recorded and
  settled the response (and before it resolves the offer, if this was the last response),
  the contestant has \<open>hasDealt = true\<close>, \<open>dealAmount = currentOffer\<close> and
  \<open>roundDealt = currentRound\<close>; the contestant's personal box, unopened before, is opened
  with the contestant as opener, and its value has moved from the remaining to the
  eliminated values; the contestant is no longer in \<open>turnOrder\<close>; and \<open>currentTurnIndex\<close>
  is decremented (never below 0) exactly when the contestant's prior position in
  \<open>turnOrder\<close> was strictly below \<open>currentTurnIndex\<close>, and is unchanged otherwise.
\<close>

theorem accept_deal_settlement:
  assumes reach: "reachable gs" and ph: "phase gs = Offer"
    and g: "getPlayer gs playerId = Some player" and act: "isActivePlayer player"
    and el: "playerId \<in> set (offerEligiblePlayerIds gs)" and nr: "offerResponses gs playerId = None"
    and off: "currentOffer gs = Some offer"
  shows "let mid = recordDealResponse playerId player True gs in
      dealResponse playerId True now rand gs
        = (if allResponded mid then endOfferAndContinue now rand mid else mid)
    \<and> offerResponses mid playerId = Some True
    \<and> (\<exists>p'. getPlayer mid playerId = Some p' \<and> hasDealt p' \<and> dealAmount p' = Some offer
             \<and> roundDealt p' = Some (currentRound gs))
    \<and> (\<exists>box. findBox gs (boxNumber player) = Some box \<and> \<not> isOpened box
         \<and> findBox mid (boxNumber player) = Some (box\<lparr>isOpened := True, openedByPlayerId := Some playerId\<rparr>)
         \<and> value_b box \<in> set (remainingValues gs)
         \<and> remainingValues mid = remove1 (value_b box) (remainingValues gs)
         \<and> eliminatedValues mid = eliminatedValues gs @ [value_b box])
    \<and> turnOrder mid = remove1 playerId (turnOrder gs) \<and> playerId \<notin> set (turnOrder mid)
    \<and> currentTurnIndex mid
        = (if 0 \<le> indexOf (turnOrder gs) playerId \<and> indexOf (turnOrder gs) playerId < currentTurnIndex gs
           then max 0 (currentTurnIndex gs - 1) else currentTurnIndex gs)"
proof -
  have wf: "wellFormed gs" using reach by (rule reachable_wellFormed)
  have li: "ladderInv gs" using reach by (rule reachable_ladderInv)
  have pl: "player \<in> set (players gs)" and pid: "id_p player = playerId"
    using find_Some_mem[OF g[unfolded getPlayer_def]] by simp_all
  obtain n where bn: "boxNumber player = Some n" using act by (auto simp add: isActivePlayer_def)
  obtain box where box: "find (\<lambda>b. number b = n) (boxes gs) = Some box"
    using wellFormed_box_exists[OF wf pl bn] by blast
  have closed: "\<not> isOpened box" using wf pl act bn box by (rule wellFormed_personal_closed)
  have vR: "value_b box \<in> set (remainingValues gs)" using li box closed by (rule closed_value_remaining)
  have num: "number box = n" using box by (rule find_number)
  define F where "F = (\<lambda>p :: Player. p\<lparr>hasDealt := True, dealAmount := Some offer,
                          roundDealt := Some (currentRound gs), isLastStanding := False,
                          points := calculatePoints offer (orZero (boxValue player)) (int (currentRound gs))
                            False False (int (timeoutCount player))\<rparr>)"
  define gs1 where "gs1 = gs\<lparr>offerResponses := (offerResponses gs)(playerId \<mapsto> True)\<rparr>"
  define gs2 where "gs2 = openFoundBox box playerId (updatePlayer playerId F gs1)"
  define mid where "mid = recordDealResponse playerId player True gs"
  have fb: "findBox (updatePlayer playerId F gs1) (boxNumber player) = Some box"
    using box bn by (simp add: findBox_def gs1_def)
  have mid_eq: "mid = (if indexOf (turnOrder gs2) playerId > - 1
         then
           let gs3 = gs2\<lparr>turnOrder := spliceOut (nat (indexOf (turnOrder gs2) playerId)) (turnOrder gs2)\<rparr>
           in if indexOf (turnOrder gs2) playerId < currentTurnIndex gs3
              then gs3\<lparr>currentTurnIndex := max 0 (currentTurnIndex gs3 - 1)\<rparr>
              else gs3
         else gs2)"
    using off fb closed unfolding mid_def gs2_def
    by (simp add: recordDealResponse_def acceptDeal_def Let_def gs1_def F_def
        del: findBox_updatePlayer)
  have fr2: "turnOrder gs2 = turnOrder gs" "currentTurnIndex gs2 = currentTurnIndex gs"
    "offerResponses gs2 = (offerResponses gs)(playerId \<mapsto> True)"
    by (simp_all add: gs2_def openFoundBox_def moveToEliminated_def Let_def updatePlayer_def gs1_def)
  have p2: "getPlayer gs2 playerId = Some (F player)"
  proof -
    have "getPlayer gs1 playerId = Some player" using g by (simp add: getPlayer_def gs1_def)
    then have "getPlayer (updatePlayer playerId F gs1) playerId = Some (F player)"
      by (simp add: getPlayer_updatePlayer_same F_def)
    then show ?thesis by (simp add: getPlayer_def gs2_def openFoundBox_frame)
  qed
  have b2: "boxes gs2 = updateFirst (\<lambda>b. number b = n)
              (\<lambda>b. b\<lparr>isOpened := True, openedByPlayerId := Some playerId\<rparr>) (boxes gs)"
    by (simp add: gs2_def openFoundBox_def moveToEliminated_def Let_def num gs1_def updatePlayer_def)
  have fb2: "findBox gs2 (boxNumber player) = Some (box\<lparr>isOpened := True, openedByPlayerId := Some playerId\<rparr>)"
    unfolding findBox_def bn b2 using box by (simp add: find_updateFirst_keep)
  have v2: "remainingValues gs2 = remove1 (value_b box) (remainingValues gs)"
    "eliminatedValues gs2 = eliminatedValues gs @ [value_b box]"
    using vR by (simp_all add: gs2_def openFoundBox_def moveToEliminated_eq updatePlayer_def gs1_def)
  have same0: "players mid = players gs2" "boxes mid = boxes gs2"
    "remainingValues mid = remainingValues gs2" "eliminatedValues mid = eliminatedValues gs2"
    "offerResponses mid = offerResponses gs2"
    unfolding mid_eq by (simp_all add: Let_def)
  have same: "getPlayer mid playerId = getPlayer gs2 playerId" "findBox mid bn' = findBox gs2 bn'"
    "remainingValues mid = remainingValues gs2" "eliminatedValues mid = eliminatedValues gs2"
    "offerResponses mid = offerResponses gs2" for bn'
    unfolding getPlayer_def findBox_def same0 by (rule refl)+
  have order: "turnOrder mid = remove1 playerId (turnOrder gs)"
    unfolding mid_eq fr2 using remove1_spliceOut[of "turnOrder gs" playerId]
    by (simp add: Let_def fr2 split: if_splits)
  have "distinct (turnOrder gs)" using wellFormed_core[OF wf] by (simp add: wfCore_def)
  then have gone: "playerId \<notin> set (turnOrder mid)" unfolding order by simp
  have idx: "currentTurnIndex mid
        = (if 0 \<le> indexOf (turnOrder gs) playerId \<and> indexOf (turnOrder gs) playerId < currentTurnIndex gs
           then max 0 (currentTurnIndex gs - 1) else currentTurnIndex gs)"
    unfolding mid_eq fr2 using indexOf_ge[of "turnOrder gs" playerId]
    by (simp add: Let_def fr2)
  have res: "dealResponse playerId True now rand gs
        = (if allResponded mid then endOfferAndContinue now rand mid else mid)"
    using ph g act el nr by (simp add: dealResponse_def Let_def mid_def isActivePlayer_def)
  have player': "\<exists>p'. getPlayer mid playerId = Some p' \<and> hasDealt p' \<and> dealAmount p' = Some offer
             \<and> roundDealt p' = Some (currentRound gs)"
    unfolding same p2 by (simp add: F_def)
  have box': "\<exists>box. findBox gs (boxNumber player) = Some box \<and> \<not> isOpened box
         \<and> findBox mid (boxNumber player) = Some (box\<lparr>isOpened := True, openedByPlayerId := Some playerId\<rparr>)
         \<and> value_b box \<in> set (remainingValues gs)
         \<and> remainingValues mid = remove1 (value_b box) (remainingValues gs)
         \<and> eliminatedValues mid = eliminatedValues gs @ [value_b box]"
    using box bn closed fb2 vR v2 unfolding same by (intro exI[of _ box]) (simp add: findBox_def)
  have resp: "offerResponses mid playerId = Some True" unfolding same fr2 by simp
  show ?thesis
    unfolding Let_def mid_def[symmetric] using res resp player' box' order gone idx by blast
qed


theorem accept_deal_settlement_witness:
  "reachable demoOffer \<and> phase demoOffer = Offer
   \<and> ''p1'' \<in> set (offerEligiblePlayerIds demoOffer) \<and> offerResponses demoOffer ''p1'' = None
   \<and> currentOffer demoOffer = Some 26380
   \<and> indexOf (turnOrder demoOffer) ''p1'' = 0 \<and> currentTurnIndex demoOffer = 1
   \<and> (\<exists>player. getPlayer demoOffer ''p1'' = Some player \<and> isActivePlayer player
        \<and> (let mid = recordDealResponse ''p1'' player True demoOffer in
             (\<exists>p'. getPlayer mid ''p1'' = Some p' \<and> hasDealt p' \<and> dealAmount p' = Some 26380
                    \<and> roundDealt p' = Some 1)
             \<and> turnOrder mid = [''p2'', ''p3''] \<and> currentTurnIndex mid = 0))"
proof -
  have ph: "phase demoOffer = Offer" by code_simp
  have el: "''p1'' \<in> set (offerEligiblePlayerIds demoOffer)" by code_simp
  have nr: "offerResponses demoOffer ''p1'' = None" by code_simp
  have off: "currentOffer demoOffer = Some 26380" by code_simp
  have ix: "indexOf (turnOrder demoOffer) ''p1'' = 0" by code_simp
  have ct: "currentTurnIndex demoOffer = 1" by code_simp
  have cr: "currentRound demoOffer = 1" by code_simp
  have ord: "remove1 ''p1'' (turnOrder demoOffer) = [''p2'', ''p3'']" by code_simp
  have "map_option isActivePlayer (getPlayer demoOffer ''p1'') = Some True" by code_simp
  then obtain player where pl: "getPlayer demoOffer ''p1'' = Some player" "isActivePlayer player"
    by auto
  note T = accept_deal_settlement [OF reachable_demoOffer ph pl el nr off, of 0 "1 / 2"]
  have "let mid = recordDealResponse ''p1'' player True demoOffer in
             (\<exists>p'. getPlayer mid ''p1'' = Some p' \<and> hasDealt p' \<and> dealAmount p' = Some 26380
                    \<and> roundDealt p' = Some 1)
             \<and> turnOrder mid = [''p2'', ''p3''] \<and> currentTurnIndex mid = 0"
    using T unfolding Let_def ix ct cr ord by simp
  then show ?thesis
    using reachable_demoOffer ph el nr off ix ct pl by blast
qed

text \<open>
  Claim C4 as stated fails where the accepting contestant's position equals
  \<open>currentTurnIndex\<close>: the handler compares with \<open><\<close> and leaves the index alone. In
  the example room the second of three contestants is at position 1, which is the current
  turn index; after the accepted deal the index is still 1, not 0.
\<close>

theorem accept_deal_turn_index_counterexample:
  "phase demoOffer = Offer
   \<and> ''p2'' \<in> set (offerEligiblePlayerIds demoOffer) \<and> offerResponses demoOffer ''p2'' = None
   \<and> turnOrder demoOffer = [''p1'', ''p2'', ''p3'']
   \<and> indexOf (turnOrder demoOffer) ''p2'' = 1 \<and> currentTurnIndex demoOffer = 1
   \<and> indexOf (turnOrder demoOffer) ''p2'' \<le> currentTurnIndex demoOffer
   \<and> turnOrder (handle 0 (1 / 2) (DealResponse ''p2'' True) demoOffer) = [''p1'', ''p3'']
   \<and> currentTurnIndex (handle 0 (1 / 2) (DealResponse ''p2'' True) demoOffer) = 1
   \<and> currentTurnIndex (handle 0 (1 / 2) (DealResponse ''p2'' True) demoOffer)
       \<noteq> max 0 (currentTurnIndex demoOffer - 1)"
  by code_simp

end
